theory Spec2Isabelle
  imports Complex_Main
begin

section \<open>Doubles\<close>

text \<open>
  A double of the source is a finite real value, an infinity or NaN.  The three arithmetic
  operations that the program uses (\<open>-\<close>, \<open>+\<close>, \<open>*\<close> on doubles) round and overflow;
  they are a parameter \<open>ar\<close> of the model, a record of three functions on doubles about
  which nothing is assumed (each operation of the source is one application: no fused
  multiply-add).  Comparisons of doubles are exact: a comparison with NaN is false, and
  zero with either sign is the value 0.
\<close>

datatype double = Finite real | PInf | NInf | NaN

record arith =
  fsub :: "double \<Rightarrow> double \<Rightarrow> double"
  fadd :: "double \<Rightarrow> double \<Rightarrow> double"
  fmul :: "double \<Rightarrow> double \<Rightarrow> double"

text \<open>The comparisons \<open>d > 0\<close>, \<open>d == 0\<close> and \<open>d < 0\<close> of \<open>find_orientation\<close>.\<close>

fun positive :: "double \<Rightarrow> bool" where
  "positive (Finite r) = (0 < r)"
| "positive PInf = True"
| "positive NInf = False"
| "positive NaN = False"

fun is_zero :: "double \<Rightarrow> bool" where
  "is_zero (Finite r) = (r = 0)"
| "is_zero PInf = False"
| "is_zero NInf = False"
| "is_zero NaN = False"

fun negative :: "double \<Rightarrow> bool" where
  "negative (Finite r) = (r < 0)"
| "negative PInf = False"
| "negative NInf = True"
| "negative NaN = False"

section \<open>Points and triplets\<close>

text \<open>
  The source represents a point of the plane by a struct of two doubles.  The coordinates
  of the input points are modelled as real numbers, the values of finite doubles
  (infinite and NaN coordinates are outside the model).  The fields are called \<open>xcoord\<close>
  and \<open>ycoord\<close> (fields \<open>x\<close> and \<open>y\<close> of the source).
\<close>

record point =
  xcoord :: real
  ycoord :: real

text \<open>
  \<open>struct triplet_of_points\<close>: the two flags are value-initialised (\<open>bool right_turn {}\<close>),
  i.e. false.  The constructor computes \<open>a = p1 - p2\<close> and \<open>b = p3 - p2\<close> by coordinates
  (\<open>a_x\<close>, \<open>a_y\<close>, \<open>b_x\<close>, \<open>b_y\<close> are the fields of the local points \<open>a\<close> and \<open>b\<close>, which
  need not be finite) and stores \<open>a.x * b.y - b.x * a.y\<close> and \<open>a.x * b.x + a.y * b.y\<close>,
  all in the arithmetic \<open>ar\<close>.
\<close>

record triplet_of_points =
  right_turn :: bool
  collinearity :: bool
  determinent :: double
  dot_product :: double

definition triplet_init :: "arith \<Rightarrow> point \<Rightarrow> point \<Rightarrow> point \<Rightarrow> triplet_of_points" where
  "triplet_init ar p1 p2 p3 =
     (let a_x = fsub ar (Finite (xcoord p1)) (Finite (xcoord p2));
          a_y = fsub ar (Finite (ycoord p1)) (Finite (ycoord p2));
          b_x = fsub ar (Finite (xcoord p3)) (Finite (xcoord p2));
          b_y = fsub ar (Finite (ycoord p3)) (Finite (ycoord p2))
      in \<lparr>right_turn = False, collinearity = False,
          determinent = fsub ar (fmul ar a_x b_y) (fmul ar b_x a_y),
          dot_product = fadd ar (fmul ar a_x b_x) (fmul ar a_y b_y)\<rparr>)"

text \<open>
  \<open>find_orientation\<close> is an if / else-if chain of four branches without a final
  \<open>else\<close>: when no branch applies the flags keep the values they had.
\<close>

definition find_orientation :: "triplet_of_points \<Rightarrow> triplet_of_points" where
  "find_orientation t =
     (if positive (determinent t) then t\<lparr>right_turn := True, collinearity := False\<rparr>
      else if is_zero (determinent t) \<and> negative (dot_product t)
        then t\<lparr>right_turn := True, collinearity := True\<rparr>
      else if is_zero (determinent t) \<and> positive (dot_product t)
        then t\<lparr>right_turn := False, collinearity := True\<rparr>
      else if negative (determinent t) then t\<lparr>right_turn := False, collinearity := False\<rparr>
      else t)"

section \<open>The leftmost point\<close>

text \<open>
  \<open>find_leftmost_point\<close> receives the current estimate \<open>leftmost_val\<close> of the smallest
  x-value, a double; \<open>find_convex_hull\<close> passes \<open>+infinity\<close>.  \<open>below v d\<close> is the comparison
  \<open>v < d\<close> of the source for a finite \<open>v\<close>.
\<close>

fun below :: "real \<Rightarrow> double \<Rightarrow> bool" where
  "below v (Finite w) = (v < w)"
| "below v PInf = True"
| "below v NInf = False"
| "below v NaN = False"

text \<open>
  One round of the \<open>for\<close> loop, on the pair
  \<open>(leftmost_val_update, leftmost_index_update)\<close>; the loop runs \<open>p\<close> over
  \<open>0, ..., points.size() - 1\<close>.
\<close>

definition leftmost_step :: "point list \<Rightarrow> nat \<Rightarrow> double \<times> nat \<Rightarrow> double \<times> nat" where
  "leftmost_step points p = (\<lambda>(leftmost_val_update, leftmost_index_update).
     if below (xcoord (points ! p)) leftmost_val_update
     then (Finite (xcoord (points ! p)), p)
     else (leftmost_val_update, leftmost_index_update))"

definition find_leftmost_point :: "double \<Rightarrow> point list \<Rightarrow> nat" where
  "find_leftmost_point leftmost_val points =
     snd (fold (leftmost_step points) [0..<length points] (leftmost_val, 0))"

section \<open>The pseudo-random generator and the choice of a candidate\<close>

text \<open>
  \<open>rand()\<close> and \<open>srand()\<close> belong to the C library, not to the program.  The generator is
  a parameter of the model: a type \<open>'s\<close> of generator states, \<open>rand :: 's \<Rightarrow> nat \<times> 's\<close>
  (the value drawn, which the C standard makes non-negative, and the next state) and
  \<open>srand :: nat \<Rightarrow> 's\<close> (the state after seeding).  The global generator state is passed
  explicitly and returned.

  Results are \<open>option\<close>s of sums: \<open>None\<close> is a loop that never ends, \<open>Some (Inl e)\<close> an
  operation without defined behaviour in the source.
\<close>

datatype error = DivisionByZero | OutOfRange

text \<open>
  \<open>find_new_point\<close> draws \<open>rand() % points.size()\<close> until the value is no element of
  \<open>exceptions\<close>.  The remainder by an empty vector's size is a division by zero.
\<close>

partial_function (option) find_new_point ::
  "('s \<Rightarrow> nat \<times> 's) \<Rightarrow> point list \<Rightarrow> nat list \<Rightarrow> 's \<Rightarrow> (error + nat \<times> 's) option" where
  "find_new_point rand points exceptions g =
     (if length points = 0 then Some (Inl DivisionByZero)
      else (case rand g of (r, g') \<Rightarrow>
        (let new_point = r mod length points
         in if new_point \<notin> set exceptions then Some (Inr (new_point, g'))
            else find_new_point rand points exceptions g')))"

declare find_new_point.simps [code]

section \<open>The hull\<close>

text \<open>
  The body of the inner \<open>for\<close> loop of \<open>find_convex_hull\<close> for one \<open>test_point\<close>, on the
  pair \<open>(candidate, all_points_collinear)\<close>.  \<open>convex_hull.begin() + 1\<close> starts the second
  search at the second entry of the hull, which is \<open>tl convex_hull\<close>.
\<close>

definition test_candidate ::
  "arith \<Rightarrow> point list \<Rightarrow> nat list \<Rightarrow> nat \<Rightarrow> nat \<Rightarrow> nat \<times> bool \<Rightarrow> nat \<times> bool" where
  "test_candidate ar points convex_hull end_of_hull_index test_point =
     (\<lambda>(candidate, all_points_collinear).
       if test_point \<noteq> candidate \<and> test_point \<noteq> end_of_hull_index then
         (let triplet = find_orientation
                (triplet_init ar (points ! end_of_hull_index) (points ! test_point)
                   (points ! candidate));
              candidate1 = (if right_turn triplet then test_point else candidate);
              candidate2 = (if collinearity triplet \<and> candidate1 \<in> set convex_hull
                               \<and> test_point \<notin> set (tl convex_hull)
                            then test_point else candidate1)
          in (candidate2, if \<not> collinearity triplet then False else all_points_collinear))
       else (candidate, all_points_collinear))"

text \<open>
  One round of the main \<open>while\<close> loop after the candidate has been drawn: the sweep over
  all test points, \<open>push_back\<close>, and the test whether the hull is complete.  The result is
  the new hull, the new flag \<open>all_points_collinear\<close> and the new value of
  \<open>not_complete_hull\<close>.
\<close>

definition extend_hull ::
  "arith \<Rightarrow> point list \<Rightarrow> nat list \<Rightarrow> bool \<Rightarrow> nat \<Rightarrow> nat list \<times> bool \<times> bool" where
  "extend_hull ar points convex_hull all_points_collinear candidate0 =
     (let end_of_hull_index = last convex_hull;
          (candidate, apc) = fold (test_candidate ar points convex_hull end_of_hull_index)
                               [0..<length points] (candidate0, all_points_collinear);
          hull1 = convex_hull @ [candidate]
      in if last hull1 \<in> set (butlast hull1)
         then (if hd hull1 = last hull1 then butlast hull1 else hull1, apc, False)
         else (hull1, apc, True))"

partial_function (option) hull_loop ::
  "arith \<Rightarrow> ('s \<Rightarrow> nat \<times> 's) \<Rightarrow> point list \<Rightarrow> nat list \<Rightarrow> bool \<Rightarrow> 's
     \<Rightarrow> (error + nat list \<times> bool \<times> 's) option" where
  "hull_loop ar rand points convex_hull all_points_collinear g =
     (case find_new_point rand points [last convex_hull] g of
        None \<Rightarrow> None
      | Some (Inl e) \<Rightarrow> Some (Inl e)
      | Some (Inr (candidate, g')) \<Rightarrow>
          (case extend_hull ar points convex_hull all_points_collinear candidate of
             (hull1, apc, not_complete_hull) \<Rightarrow>
               if not_complete_hull then hull_loop ar rand points hull1 apc g'
               else Some (Inr (hull1, apc, g'))))"

declare hull_loop.simps [code]

text \<open>
  The loop that rebuilds the points of the hull when all points are collinear; it leaves
  (\<open>break\<close>) at the first index \<open>i > 0\<close> whose entry occurs among the first \<open>i - 1\<close>
  entries.
\<close>

function rebuild_collinear :: "point list \<Rightarrow> nat list \<Rightarrow> nat \<Rightarrow> point list \<Rightarrow> point list" where
  "rebuild_collinear points convex_hull i convex_hull_points =
     (if i < length convex_hull then
        (if i = 0 then
           rebuild_collinear points convex_hull (i + 1)
             (convex_hull_points @ [points ! (convex_hull ! i)])
         else if convex_hull ! i \<notin> set (take (i - 1) convex_hull) then
           rebuild_collinear points convex_hull (i + 1)
             (convex_hull_points @ [points ! (convex_hull ! i)])
         else convex_hull_points)
      else convex_hull_points)"
  by pat_completeness auto
termination
  by (relation "measure (\<lambda>(points, convex_hull, i, acc). length convex_hull - i)") auto

declare rebuild_collinear.simps [simp del]

definition hull_points :: "point list \<Rightarrow> nat list \<Rightarrow> bool \<Rightarrow> point list" where
  "hull_points points convex_hull all_points_collinear =
     (if \<not> all_points_collinear then map (\<lambda>i. points ! i) convex_hull
      else rebuild_collinear points convex_hull 0 [])"

definition find_convex_hull ::
  "arith \<Rightarrow> ('s \<Rightarrow> nat \<times> 's) \<Rightarrow> point list \<Rightarrow> 's \<Rightarrow> (error + point list \<times> 's) option" where
  "find_convex_hull ar rand points g =
     (if length points = 0 then Some (Inr ([], g))
      else if length points = 1 then Some (Inr ([points ! 0], g))
      else if length points = 2 then
        (let leftmost_index = find_leftmost_point PInf points;
             rightmost_index = (if leftmost_index = 0 then 1 else 0)
         in Some (Inr ([points ! leftmost_index, points ! rightmost_index], g)))
      else
        (let leftmost_index = find_leftmost_point PInf points
         in case hull_loop ar rand points [leftmost_index] True g of
              None \<Rightarrow> None
            | Some (Inl e) \<Rightarrow> Some (Inl e)
            | Some (Inr (convex_hull, all_points_collinear, g')) \<Rightarrow>
                Some (Inr (hull_points points convex_hull all_points_collinear, g'))))"

section \<open>The entry point\<close>

text \<open>
  \<open>jarvis_march\<close> reads \<open>x[i]\<close> and \<open>y[i]\<close> for \<open>i < x.size()\<close>; the read of \<open>y[i]\<close> beyond
  the end of \<open>y\<close> has no defined behaviour.  \<open>read_points xs ys k points\<close> is this loop
  with \<open>k\<close> rounds left, at the index \<open>i = x.size() - k\<close>.  \<open>jarvis_march\<close> then seeds
  the generator with 10, whatever its state \<open>g\<close> was, and returns the x-coordinates of the
  hull.
\<close>

fun read_points :: "real list \<Rightarrow> real list \<Rightarrow> nat \<Rightarrow> point list \<Rightarrow> error + point list" where
  "read_points xs ys 0 points = Inr points"
| "read_points xs ys (Suc k) points =
     (let i = length xs - Suc k
      in if i < length ys
         then read_points xs ys k (points @ [\<lparr>xcoord = xs ! i, ycoord = ys ! i\<rparr>])
         else Inl OutOfRange)"

definition jarvis_march ::
  "arith \<Rightarrow> (nat \<Rightarrow> 's) \<Rightarrow> ('s \<Rightarrow> nat \<times> 's) \<Rightarrow> 's \<Rightarrow> real list \<Rightarrow> real list
     \<Rightarrow> (error + real list \<times> 's) option" where
  "jarvis_march ar srand rand g xs ys =
     (case read_points xs ys (length xs) [] of
        Inl e \<Rightarrow> Some (Inl e)
      | Inr points \<Rightarrow>
          (case find_convex_hull ar rand points (srand 10) of
             None \<Rightarrow> None
           | Some (Inl e) \<Rightarrow> Some (Inl e)
           | Some (Inr (hull_pts, g')) \<Rightarrow> Some (Inr (map xcoord hull_pts, g'))))"

section \<open>Generators and auxiliary notions for the statements\<close>

text \<open>
  Two concrete generators.  \<open>replay\<close> hands out a recorded list of draws (and 0 once the
  list is used up); \<open>counter\<close> counts upwards from its seed.
\<close>

definition replay :: "nat list \<Rightarrow> nat \<times> nat list" where
  "replay ds = (case ds of [] \<Rightarrow> (0, []) | d # ds' \<Rightarrow> (d, ds'))"

definition counter :: "nat \<Rightarrow> nat \<times> nat" where
  "counter s = (s, Suc s)"

definition pt :: "real \<Rightarrow> real \<Rightarrow> point" where
  "pt a b = \<lparr>xcoord = a, ycoord = b\<rparr>"

text \<open>The state of a generator after \<open>k\<close> draws, and the value of the draw that follows.\<close>

primrec after_draws :: "('s \<Rightarrow> nat \<times> 's) \<Rightarrow> nat \<Rightarrow> 's \<Rightarrow> 's" where
  "after_draws rand 0 g = g"
| "after_draws rand (Suc k) g = after_draws rand k (snd (rand g))"

definition draw :: "('s \<Rightarrow> nat \<times> 's) \<Rightarrow> nat \<Rightarrow> 's \<Rightarrow> nat" where
  "draw rand k g = fst (rand (after_draws rand k g))"

text \<open>
  The invariant of the loop of \<open>find_leftmost_point\<close> after the indices below \<open>k\<close>: if one
  of these points lies below the initial estimate \<open>v0\<close>, the state holds the first index of
  the smallest x-value among them; otherwise it is unchanged.
\<close>

definition leftmost_inv :: "point list \<Rightarrow> double \<Rightarrow> nat \<Rightarrow> double \<times> nat \<Rightarrow> bool" where
  "leftmost_inv points v0 k = (\<lambda>(v, i).
     if \<exists>j<k. below (xcoord (points ! j)) v0
     then i < k \<and> v = Finite (xcoord (points ! i)) \<and> below (xcoord (points ! i)) v0
          \<and> (\<forall>j<k. xcoord (points ! i) \<le> xcoord (points ! j))
          \<and> (\<forall>j<i. xcoord (points ! i) < xcoord (points ! j))
     else v = v0 \<and> i = 0)"

text \<open>
  A recorded sequence of draws for \<open>replay\<close>: the first values that \<open>rand()\<close> of the GNU C
  library returns after \<open>srand(10)\<close>.  Their remainders modulo 4 are 3, 0, 2, 1, 2, 1, 3, 3.
\<close>

definition recorded_draws :: "nat list" where
  "recorded_draws = [1215069295, 1311962008, 1086128678, 385788725, 1753820418, 394002377,
     1255532675, 906573271]"

text \<open>
  A generator is fair for \<open>n\<close> points if from every state on, and for every index \<open>e\<close>,
  some draw has a remainder other than \<open>e\<close>.
\<close>

definition fair :: "('s \<Rightarrow> nat \<times> 's) \<Rightarrow> nat \<Rightarrow> bool" where
  "fair rand n = (\<forall>g e. \<exists>k. draw rand k g mod n \<noteq> e)"

text \<open>The sweep of \<open>extend_hull\<close> over all test points, by itself.\<close>

definition sweep :: "arith \<Rightarrow> point list \<Rightarrow> nat list \<Rightarrow> bool \<Rightarrow> nat \<Rightarrow> nat \<times> bool" where
  "sweep ar points convex_hull all_points_collinear candidate0 =
     fold (test_candidate ar points convex_hull (last convex_hull)) [0..<length points]
       (candidate0, all_points_collinear)"

text \<open>
  The invariant of the main loop: the hull is a non-empty sequence of pairwise different
  indices of points.  \<open>closed_walk convex_hull h\<close> describes the sequence \<open>h\<close> with which
  the loop ends when it is entered with \<open>convex_hull\<close>: only its last entry may repeat an
  earlier one, and then neither the first entry nor the entry just before it.
\<close>

definition hull_inv :: "point list \<Rightarrow> nat list \<Rightarrow> bool" where
  "hull_inv points convex_hull =
     (convex_hull \<noteq> [] \<and> distinct convex_hull \<and>
      list_all (\<lambda>i. i < length points) convex_hull)"

definition closed_walk :: "nat list \<Rightarrow> nat list \<Rightarrow> bool" where
  "closed_walk convex_hull h =
     (h \<noteq> [] \<and> hd h = hd convex_hull \<and> distinct (butlast h) \<and>
      (distinct h \<or> last h \<in> set (butlast (butlast h)) \<and> last h \<noteq> hd h))"

text \<open>
  A closed half-plane \<open>a * x + b * y \<le> c\<close> that contains all points of a sequence but not
  the point \<open>p\<close> separates \<open>p\<close> from their convex hull, and so from every polygon with
  these corners: \<open>p\<close> lies strictly outside.
\<close>

definition in_half_plane :: "real \<Rightarrow> real \<Rightarrow> real \<Rightarrow> point \<Rightarrow> bool" where
  "in_half_plane a b c p = (a * xcoord p + b * ycoord p \<le> c)"

definition cut_off :: "real \<Rightarrow> real \<Rightarrow> real \<Rightarrow> point list \<Rightarrow> point \<Rightarrow> bool" where
  "cut_off a b c hull_pts p =
     (list_all (in_half_plane a b c) hull_pts \<and> \<not> in_half_plane a b c p)"

text \<open>
  All points of a sequence lie on the line \<open>y = m * x + q\<close>.  \<open>walk_inv\<close> is the invariant of
  the main loop for such points when their x-coordinates are pairwise different: the hull
  lists indices by strictly increasing x-coordinate, and every point not yet listed lies
  to the right of its end.
\<close>

definition on_line :: "real \<Rightarrow> real \<Rightarrow> point list \<Rightarrow> bool" where
  "on_line m q points = list_all (\<lambda>p. ycoord p = m * xcoord p + q) points"

definition walk_inv :: "point list \<Rightarrow> nat list \<Rightarrow> bool" where
  "walk_inv points ch =
     (hull_inv points ch \<and>
      sorted_wrt (\<lambda>i j. xcoord (points ! i) < xcoord (points ! j)) ch \<and>
      (\<forall>u<length points. u \<notin> set ch \<longrightarrow> xcoord (points ! last ch) < xcoord (points ! u)))"

text \<open>
  The arithmetic without rounding, on finite values.  Binary64 arithmetic agrees with it
  wherever the operands and the result are integers of magnitude up to \<open>2 ^ 53\<close>, all of
  which are doubles: that is the property \<open>exact_on_integers\<close> of an arithmetic.
\<close>

fun exact_op :: "(real \<Rightarrow> real \<Rightarrow> real) \<Rightarrow> double \<Rightarrow> double \<Rightarrow> double" where
  "exact_op f (Finite a) (Finite b) = Finite (f a b)"
| "exact_op f a b = NaN"

definition exact_arith :: arith where
  "exact_arith = \<lparr>fsub = exact_op (\<lambda>a b. a - b), fadd = exact_op (\<lambda>a b. a + b),
     fmul = exact_op (\<lambda>a b. a * b)\<rparr>"

definition exact_on_integers :: "arith \<Rightarrow> bool" where
  "exact_on_integers ar = (\<forall>a b :: int. \<bar>a\<bar> \<le> 2 ^ 53 \<and> \<bar>b\<bar> \<le> 2 ^ 53 \<longrightarrow>
     (\<bar>a - b\<bar> \<le> 2 ^ 53 \<longrightarrow>
        fsub ar (Finite (of_int a)) (Finite (of_int b)) = Finite (of_int (a - b))) \<and>
     (\<bar>a + b\<bar> \<le> 2 ^ 53 \<longrightarrow>
        fadd ar (Finite (of_int a)) (Finite (of_int b)) = Finite (of_int (a + b))) \<and>
     (\<bar>a * b\<bar> \<le> 2 ^ 53 \<longrightarrow>
        fmul ar (Finite (of_int a)) (Finite (of_int b)) = Finite (of_int (a * b))))"

text \<open>
  Two arithmetics compute the same determinant and dot product for every triplet of
  points of a sequence; an arithmetic is free of rounding on a sequence of points if it
  computes those of the exact arithmetic.  The points of a sequence have integer
  coordinates of magnitude up to \<open>B\<close>.
\<close>

definition same_triplets :: "arith \<Rightarrow> arith \<Rightarrow> point list \<Rightarrow> bool" where
  "same_triplets ar ar' points =
     (\<forall>i<length points. \<forall>j<length points. \<forall>k<length points.
        triplet_init ar (points ! i) (points ! j) (points ! k)
          = triplet_init ar' (points ! i) (points ! j) (points ! k))"

definition rounding_free :: "arith \<Rightarrow> point list \<Rightarrow> bool" where
  "rounding_free ar points = same_triplets ar exact_arith points"

definition integer_points :: "int \<Rightarrow> point list \<Rightarrow> bool" where
  "integer_points B points =
     list_all (\<lambda>p. \<exists>a b :: int. \<bar>a\<bar> \<le> B \<and> \<bar>b\<bar> \<le> B
                  \<and> xcoord p = of_int a \<and> ycoord p = of_int b) points"

section \<open>The orientation of a triplet\<close>

lemma comparisons_exclusive:
  "\<not> (positive d \<and> is_zero d)" "\<not> (positive d \<and> negative d)" "\<not> (is_zero d \<and> negative d)"
  by (cases d; simp)+

text \<open>
  C3.  For every triplet \<open>(p1, p2, p3)\<close> the constructor stores, as determinant and dot
  product, what the arithmetic of the source computes from \<open>a = p1 - p2\<close> and
  \<open>b = p3 - p2\<close>: \<open>a.x * b.y - b.x * a.y\<close> (which is \<open>a.x * b.y - a.y * b.x\<close> when the
  multiplication commutes, as that of doubles does) and \<open>a.x * b.x + a.y * b.y\<close>.  On these
  stored values \<open>find_orientation\<close> sets: determinant positive, \<open>right_turn\<close> true and
  \<open>collinearity\<close> false; determinant zero and dot product negative, both true; determinant
  zero and dot product positive, \<open>right_turn\<close> false and \<open>collinearity\<close> true; determinant
  negative, both false.  It leaves the stored values as they are.
\<close>

theorem find_orientation_classification:
  "let t = triplet_init ar p1 p2 p3; r = find_orientation t;
       a_x = fsub ar (Finite (xcoord p1)) (Finite (xcoord p2));
       a_y = fsub ar (Finite (ycoord p1)) (Finite (ycoord p2));
       b_x = fsub ar (Finite (xcoord p3)) (Finite (xcoord p2));
       b_y = fsub ar (Finite (ycoord p3)) (Finite (ycoord p2))
   in
     determinent t = fsub ar (fmul ar a_x b_y) (fmul ar b_x a_y) \<and>
     ((\<forall>u v. fmul ar u v = fmul ar v u) \<longrightarrow>
        determinent t = fsub ar (fmul ar a_x b_y) (fmul ar a_y b_x)) \<and>
     dot_product t = fadd ar (fmul ar a_x b_x) (fmul ar a_y b_y) \<and>
     determinent r = determinent t \<and> dot_product r = dot_product t \<and>
     (positive (determinent t) \<longrightarrow> right_turn r \<and> \<not> collinearity r) \<and>
     (is_zero (determinent t) \<and> negative (dot_product t) \<longrightarrow> right_turn r \<and> collinearity r) \<and>
     (is_zero (determinent t) \<and> positive (dot_product t)
        \<longrightarrow> \<not> right_turn r \<and> collinearity r) \<and>
     (negative (determinent t) \<longrightarrow> \<not> right_turn r \<and> \<not> collinearity r)"
proof -
  let ?t = "triplet_init ar p1 p2 p3"
  note ex = comparisons_exclusive [of "determinent ?t"]
  have flags: "positive (determinent ?t) \<longrightarrow>
      right_turn (find_orientation ?t) \<and> \<not> collinearity (find_orientation ?t)"
    "is_zero (determinent ?t) \<and> negative (dot_product ?t) \<longrightarrow>
      right_turn (find_orientation ?t) \<and> collinearity (find_orientation ?t)"
    "is_zero (determinent ?t) \<and> positive (dot_product ?t) \<longrightarrow>
      \<not> right_turn (find_orientation ?t) \<and> collinearity (find_orientation ?t)"
    "negative (determinent ?t) \<longrightarrow>
      \<not> right_turn (find_orientation ?t) \<and> \<not> collinearity (find_orientation ?t)"
    using ex comparisons_exclusive [of "dot_product ?t"]
    by (auto simp add: find_orientation_def)
  have stored: "determinent (find_orientation ?t) = determinent ?t"
    "dot_product (find_orientation ?t) = dot_product ?t"
    by (simp_all add: find_orientation_def)
  have comm: "(\<forall>u v. fmul ar u v = fmul ar v u) \<longrightarrow>
      fmul ar (fsub ar (Finite (xcoord p3)) (Finite (xcoord p2)))
              (fsub ar (Finite (ycoord p1)) (Finite (ycoord p2)))
        = fmul ar (fsub ar (Finite (ycoord p1)) (Finite (ycoord p2)))
                  (fsub ar (Finite (xcoord p3)) (Finite (xcoord p2)))"
    by simp
  from flags stored comm show ?thesis
    by (simp add: Let_def) (simp add: triplet_init_def Let_def)
qed

text \<open>
  The four cases at concrete triplets of points with small integer coordinates, in the
  arithmetic without rounding: a right turn, straight on, back, a left turn.
\<close>

theorem find_orientation_classification_witness:
  "(right_turn (find_orientation (triplet_init exact_arith (pt 0 0) (pt 1 0) (pt 1 (-1)))) \<and>
    \<not> collinearity (find_orientation (triplet_init exact_arith (pt 0 0) (pt 1 0) (pt 1 (-1))))) \<and>
   (right_turn (find_orientation (triplet_init exact_arith (pt 0 0) (pt 1 0) (pt 2 0))) \<and>
    collinearity (find_orientation (triplet_init exact_arith (pt 0 0) (pt 1 0) (pt 2 0)))) \<and>
   (\<not> right_turn (find_orientation (triplet_init exact_arith (pt 0 0) (pt 2 0) (pt 1 0))) \<and>
    collinearity (find_orientation (triplet_init exact_arith (pt 0 0) (pt 2 0) (pt 1 0)))) \<and>
   (\<not> right_turn (find_orientation (triplet_init exact_arith (pt 0 0) (pt 1 0) (pt 1 1))) \<and>
    \<not> collinearity (find_orientation (triplet_init exact_arith (pt 0 0) (pt 1 0) (pt 1 1))))"
proof -
  have d: "determinent (triplet_init exact_arith (pt 0 0) (pt 1 0) (pt 1 (-1))) = Finite 1"
    "determinent (triplet_init exact_arith (pt 0 0) (pt 1 0) (pt 2 0)) = Finite 0"
    "dot_product (triplet_init exact_arith (pt 0 0) (pt 1 0) (pt 2 0)) = Finite (-1)"
    "determinent (triplet_init exact_arith (pt 0 0) (pt 2 0) (pt 1 0)) = Finite 0"
    "dot_product (triplet_init exact_arith (pt 0 0) (pt 2 0) (pt 1 0)) = Finite 2"
    "determinent (triplet_init exact_arith (pt 0 0) (pt 1 0) (pt 1 1)) = Finite (-1)"
    by (simp_all add: triplet_init_def exact_arith_def pt_def Let_def)
  have h: "positive (determinent (triplet_init exact_arith (pt 0 0) (pt 1 0) (pt 1 (-1))))"
    "is_zero (determinent (triplet_init exact_arith (pt 0 0) (pt 1 0) (pt 2 0)))
       \<and> negative (dot_product (triplet_init exact_arith (pt 0 0) (pt 1 0) (pt 2 0)))"
    "is_zero (determinent (triplet_init exact_arith (pt 0 0) (pt 2 0) (pt 1 0)))
       \<and> positive (dot_product (triplet_init exact_arith (pt 0 0) (pt 2 0) (pt 1 0)))"
    "negative (determinent (triplet_init exact_arith (pt 0 0) (pt 1 0) (pt 1 1)))"
    by (simp_all add: d)
  note c = find_orientation_classification [of exact_arith "pt 0 0" "pt 1 0" "pt 1 (-1)",
        unfolded Let_def]
    find_orientation_classification [of exact_arith "pt 0 0" "pt 1 0" "pt 2 0", unfolded Let_def]
    find_orientation_classification [of exact_arith "pt 0 0" "pt 2 0" "pt 1 0", unfolded Let_def]
    find_orientation_classification [of exact_arith "pt 0 0" "pt 1 0" "pt 1 1", unfolded Let_def]
  from c(1) h(1) have
    "right_turn (find_orientation (triplet_init exact_arith (pt 0 0) (pt 1 0) (pt 1 (-1)))) \<and>
     \<not> collinearity (find_orientation (triplet_init exact_arith (pt 0 0) (pt 1 0) (pt 1 (-1))))"
    by blast
  moreover from c(2) h(2) have
    "right_turn (find_orientation (triplet_init exact_arith (pt 0 0) (pt 1 0) (pt 2 0))) \<and>
     collinearity (find_orientation (triplet_init exact_arith (pt 0 0) (pt 1 0) (pt 2 0)))"
    by blast
  moreover from c(3) h(3) have
    "\<not> right_turn (find_orientation (triplet_init exact_arith (pt 0 0) (pt 2 0) (pt 1 0))) \<and>
     collinearity (find_orientation (triplet_init exact_arith (pt 0 0) (pt 2 0) (pt 1 0)))"
    by blast
  moreover from c(4) h(4) have
    "\<not> right_turn (find_orientation (triplet_init exact_arith (pt 0 0) (pt 1 0) (pt 1 1))) \<and>
     \<not> collinearity (find_orientation (triplet_init exact_arith (pt 0 0) (pt 1 0) (pt 1 1)))"
    by blast
  ultimately show ?thesis by blast
qed

text \<open>Integer arithmetic within the range in which doubles are exact.\<close>

lemma exact_arith_exact: "exact_on_integers exact_arith"
  by (simp add: exact_on_integers_def exact_arith_def)

lemma small_products:
  fixes u v :: int
  assumes "\<bar>u\<bar> \<le> 2 ^ 26" "\<bar>v\<bar> \<le> 2 ^ 26"
  shows "\<bar>u * v\<bar> \<le> 2 ^ 52"
proof -
  have "\<bar>u * v\<bar> = \<bar>u\<bar> * \<bar>v\<bar>" by (rule abs_mult)
  also from assms have "\<dots> \<le> 2 ^ 26 * 2 ^ 26" by (intro mult_mono) simp_all
  finally show ?thesis by simp
qed

lemma small_differences:
  fixes a b :: int
  assumes "\<bar>a\<bar> \<le> 2 ^ 25" "\<bar>b\<bar> \<le> 2 ^ 25"
  shows "\<bar>a - b\<bar> \<le> 2 ^ 26"
  using assms by simp

lemma within_range:
  fixes a b :: int
  shows "\<bar>a\<bar> \<le> 2 ^ 25 \<Longrightarrow> \<bar>a\<bar> \<le> 2 ^ 53"
    and "\<bar>a\<bar> \<le> 2 ^ 26 \<Longrightarrow> \<bar>a\<bar> \<le> 2 ^ 53"
    and "\<bar>a\<bar> \<le> 2 ^ 52 \<Longrightarrow> \<bar>a\<bar> \<le> 2 ^ 53"
    and "\<bar>a\<bar> \<le> 2 ^ 52 \<Longrightarrow> \<bar>b\<bar> \<le> 2 ^ 52 \<Longrightarrow> \<bar>a - b\<bar> \<le> 2 ^ 53"
    and "\<bar>a\<bar> \<le> 2 ^ 52 \<Longrightarrow> \<bar>b\<bar> \<le> 2 ^ 52 \<Longrightarrow> \<bar>a + b\<bar> \<le> 2 ^ 53"
  by simp_all

lemma triplet_init_integers:
  assumes "exact_on_integers ar"
    and "xcoord p1 = of_int x1" "ycoord p1 = of_int y1" "\<bar>x1\<bar> \<le> 2 ^ 25" "\<bar>y1\<bar> \<le> 2 ^ 25"
    and "xcoord p2 = of_int x2" "ycoord p2 = of_int y2" "\<bar>x2\<bar> \<le> 2 ^ 25" "\<bar>y2\<bar> \<le> 2 ^ 25"
    and "xcoord p3 = of_int x3" "ycoord p3 = of_int y3" "\<bar>x3\<bar> \<le> 2 ^ 25" "\<bar>y3\<bar> \<le> 2 ^ 25"
  shows "triplet_init ar p1 p2 p3 =
     \<lparr>right_turn = False, collinearity = False,
      determinent = Finite (of_int ((x1 - x2) * (y3 - y2) - (x3 - x2) * (y1 - y2))),
      dot_product = Finite (of_int ((x1 - x2) * (x3 - x2) + (y1 - y2) * (y3 - y2)))\<rparr>"
proof -
  have sub: "fsub ar (Finite (of_int a)) (Finite (of_int b)) = Finite (of_int (a - b))"
    if "\<bar>a\<bar> \<le> 2 ^ 53" "\<bar>b\<bar> \<le> 2 ^ 53" "\<bar>a - b\<bar> \<le> 2 ^ 53" for a b
    using assms(1) that unfolding exact_on_integers_def by blast
  have add: "fadd ar (Finite (of_int a)) (Finite (of_int b)) = Finite (of_int (a + b))"
    if "\<bar>a\<bar> \<le> 2 ^ 53" "\<bar>b\<bar> \<le> 2 ^ 53" "\<bar>a + b\<bar> \<le> 2 ^ 53" for a b
    using assms(1) that unfolding exact_on_integers_def by blast
  have mul: "fmul ar (Finite (of_int a)) (Finite (of_int b)) = Finite (of_int (a * b))"
    if "\<bar>a\<bar> \<le> 2 ^ 53" "\<bar>b\<bar> \<le> 2 ^ 53" "\<bar>a * b\<bar> \<le> 2 ^ 53" for a b
    using assms(1) that unfolding exact_on_integers_def by blast
  note d = small_differences [OF assms(4,8)] small_differences [OF assms(5,9)]
    small_differences [OF assms(12,8)] small_differences [OF assms(13,9)]
  note r = within_range(1)
  have a_x: "fsub ar (Finite (xcoord p1)) (Finite (xcoord p2)) = Finite (of_int (x1 - x2))"
    unfolding assms(2,6)
    by (rule sub [OF r [OF assms(4)] r [OF assms(8)] within_range(2) [OF d(1)]])
  have a_y: "fsub ar (Finite (ycoord p1)) (Finite (ycoord p2)) = Finite (of_int (y1 - y2))"
    unfolding assms(3,7)
    by (rule sub [OF r [OF assms(5)] r [OF assms(9)] within_range(2) [OF d(2)]])
  have b_x: "fsub ar (Finite (xcoord p3)) (Finite (xcoord p2)) = Finite (of_int (x3 - x2))"
    unfolding assms(10,6)
    by (rule sub [OF r [OF assms(12)] r [OF assms(8)] within_range(2) [OF d(3)]])
  have b_y: "fsub ar (Finite (ycoord p3)) (Finite (ycoord p2)) = Finite (of_int (y3 - y2))"
    unfolding assms(11,7)
    by (rule sub [OF r [OF assms(13)] r [OF assms(9)] within_range(2) [OF d(4)]])
  note d53 = d [THEN within_range(2)]
  note p = small_products [OF d(1) d(4)] small_products [OF d(3) d(2)]
    small_products [OF d(1) d(3)] small_products [OF d(2) d(4)]
  note p53 = p [THEN within_range(3)]
  note m = mul [OF d53(1) d53(4) p53(1)] mul [OF d53(3) d53(2) p53(2)]
    mul [OF d53(1) d53(3) p53(3)] mul [OF d53(2) d53(4) p53(4)]
  note det = sub [OF p53(1) p53(2) within_range(4) [OF p(1) p(2)]]
  note dot = add [OF p53(3) p53(4) within_range(5) [OF p(3) p(4)]]
  show ?thesis
    by (simp only: triplet_init_def Let_def a_x a_y b_x b_y m det dot)
qed

text \<open>
  C4.  The claim is that a triplet with a zero-length vector (\<open>p1 = p2\<close>, determinant and
  dot product both zero) is classified as collinear.  In the code no branch of
  \<open>find_orientation\<close> applies to it and both flags keep their initial value false: for
  \<open>p1 = p2 = (0, 0)\<close> and \<open>p3 = (1, 0)\<close>, in every arithmetic that is exact on the integers
  up to \<open>2 ^ 53\<close>, the flag \<open>collinearity\<close> is false.
\<close>

theorem find_orientation_coincident:
  assumes "exact_on_integers ar"
  shows "determinent (triplet_init ar (pt 0 0) (pt 0 0) (pt 1 0)) = Finite 0 \<and>
   dot_product (triplet_init ar (pt 0 0) (pt 0 0) (pt 1 0)) = Finite 0 \<and>
   \<not> collinearity (find_orientation (triplet_init ar (pt 0 0) (pt 0 0) (pt 1 0))) \<and>
   \<not> right_turn (find_orientation (triplet_init ar (pt 0 0) (pt 0 0) (pt 1 0)))"
proof -
  have "triplet_init ar (pt 0 0) (pt 0 0) (pt 1 0) =
     \<lparr>right_turn = False, collinearity = False,
      determinent = Finite (of_int ((0 - 0) * (0 - 0) - (1 - 0) * (0 - 0))),
      dot_product = Finite (of_int ((0 - 0) * (1 - 0) + (0 - 0) * (0 - 0)))\<rparr>"
    by (rule triplet_init_integers [OF assms]) (simp_all add: pt_def)
  then show ?thesis by (simp add: find_orientation_def)
qed

theorem find_orientation_coincident_witness:
  "determinent (triplet_init exact_arith (pt 0 0) (pt 0 0) (pt 1 0)) = Finite 0 \<and>
   dot_product (triplet_init exact_arith (pt 0 0) (pt 0 0) (pt 1 0)) = Finite 0 \<and>
   \<not> collinearity (find_orientation (triplet_init exact_arith (pt 0 0) (pt 0 0) (pt 1 0))) \<and>
   \<not> right_turn (find_orientation (triplet_init exact_arith (pt 0 0) (pt 0 0) (pt 1 0)))"
  by (rule find_orientation_coincident [OF exact_arith_exact])

text \<open>
  In every arithmetic, a triplet whose stored determinant and dot product are both zero
  keeps its flags.
\<close>

lemma find_orientation_zero_vector:
  "is_zero (determinent t) \<Longrightarrow> is_zero (dot_product t) \<Longrightarrow> find_orientation t = t"
  using comparisons_exclusive [of "determinent t"] comparisons_exclusive [of "dot_product t"]
  by (auto simp add: find_orientation_def)

section \<open>The scan for the leftmost point\<close>

lemma below_less: "below a b \<Longrightarrow> \<not> below c b \<Longrightarrow> a < c"
  by (cases b) auto

lemma less_below: "c < a \<Longrightarrow> below a b \<Longrightarrow> below c b"
  by (cases b) auto

lemma leftmost_inv_step:
  assumes "leftmost_inv points v0 k s"
  shows "leftmost_inv points v0 (Suc k) (leftmost_step points k s)"
proof -
  obtain v i where s: "s = (v, i)" by (cases s)
  show ?thesis
  proof (cases "\<exists>j<k. below (xcoord (points ! j)) v0")
    case True
    with assms s have inv: "i < k" "v = Finite (xcoord (points ! i))"
      "below (xcoord (points ! i)) v0"
      "\<forall>j<k. xcoord (points ! i) \<le> xcoord (points ! j)"
      "\<forall>j<i. xcoord (points ! i) < xcoord (points ! j)"
      by (simp_all add: leftmost_inv_def)
    from True have ex: "\<exists>j<Suc k. below (xcoord (points ! j)) v0"
      using less_Suc_eq by blast
    show ?thesis
    proof (cases "xcoord (points ! k) < xcoord (points ! i)")
      case lt: True
      with inv have "below (xcoord (points ! k)) v0"
        using less_below by blast
      moreover from lt inv(4) have "\<forall>j<Suc k. xcoord (points ! k) \<le> xcoord (points ! j)"
        by (auto simp add: less_Suc_eq intro: less_imp_le order.strict_trans2)
      moreover from lt inv(4) have "\<forall>j<k. xcoord (points ! k) < xcoord (points ! j)"
        by (auto intro: order.strict_trans2)
      ultimately show ?thesis using s inv(2) lt ex
        by (simp add: leftmost_inv_def leftmost_step_def)
    next
      case ge: False
      with inv(4) have "\<forall>j<Suc k. xcoord (points ! i) \<le> xcoord (points ! j)"
        by (auto simp add: less_Suc_eq)
      with inv ge s ex show ?thesis
        by (simp add: leftmost_inv_def leftmost_step_def)
    qed
  next
    case False
    with assms s have inv: "v = v0" "i = 0" by (simp_all add: leftmost_inv_def)
    show ?thesis
    proof (cases "below (xcoord (points ! k)) v0")
      case True
      then have ex: "\<exists>j<Suc k. below (xcoord (points ! j)) v0" by blast
      from True False have lt: "\<forall>j<k. xcoord (points ! k) < xcoord (points ! j)"
        using below_less by blast
      then have "\<forall>j<Suc k. xcoord (points ! k) \<le> xcoord (points ! j)"
        by (auto simp add: less_Suc_eq intro: less_imp_le)
      with True lt ex s inv show ?thesis
        by (simp add: leftmost_inv_def leftmost_step_def)
    next
      case nb: False
      with False have "\<not> (\<exists>j<Suc k. below (xcoord (points ! j)) v0)"
        by (auto simp add: less_Suc_eq)
      with nb s inv show ?thesis
        by (simp add: leftmost_inv_def leftmost_step_def)
    qed
  qed
qed

lemma leftmost_inv_fold:
  "leftmost_inv points v0 k (fold (leftmost_step points) [0..<k] (v0, 0))"
proof (induction k)
  case 0
  show ?case by (simp add: leftmost_inv_def)
next
  case (Suc k)
  then show ?case by (simp add: leftmost_inv_step)
qed

lemma find_leftmost_point_minimum:
  assumes "\<exists>j<length points. below (xcoord (points ! j)) leftmost_val"
  shows "find_leftmost_point leftmost_val points < length points \<and>
    (\<forall>j<length points.
       xcoord (points ! find_leftmost_point leftmost_val points) \<le> xcoord (points ! j)) \<and>
    (\<forall>j<find_leftmost_point leftmost_val points.
       xcoord (points ! find_leftmost_point leftmost_val points) < xcoord (points ! j))"
proof -
  obtain v i where s: "fold (leftmost_step points) [0..<length points] (leftmost_val, 0) = (v, i)"
    by (cases "fold (leftmost_step points) [0..<length points] (leftmost_val, 0)")
  have "leftmost_inv points leftmost_val (length points) (v, i)"
    using leftmost_inv_fold [of points leftmost_val "length points"] s by simp
  with assms s show ?thesis
    by (simp add: leftmost_inv_def find_leftmost_point_def)
qed

text \<open>
  C7.  For a non-empty collection with a point whose x-coordinate is strictly below the
  initial \<open>leftmost_val\<close>, \<open>find_leftmost_point\<close> returns an index of the collection whose
  x-coordinate is the smallest of all, and every earlier index has a strictly larger
  x-coordinate: among the points of minimal x-coordinate it is the first.
\<close>

theorem find_leftmost_point_first_minimum:
  assumes "points \<noteq> []"
    and "\<exists>j<length points. below (xcoord (points ! j)) leftmost_val"
  shows "find_leftmost_point leftmost_val points < length points \<and>
    (\<forall>j<length points.
       xcoord (points ! find_leftmost_point leftmost_val points) \<le> xcoord (points ! j)) \<and>
    (\<forall>j<find_leftmost_point leftmost_val points.
       xcoord (points ! find_leftmost_point leftmost_val points) < xcoord (points ! j))"
  using assms(2) by (rule find_leftmost_point_minimum)

text \<open>
  Four points whose smallest x-coordinate 1 occurs at the indices 1 and 3: the result is
  the index 1, not larger than the point at index 3 and strictly left of the point at
  index 0.
\<close>

theorem find_leftmost_point_first_minimum_witness:
  "find_leftmost_point PInf [pt 2 0, pt 1 5, pt 3 1, pt 1 7] = 1 \<and>
   find_leftmost_point PInf [pt 2 0, pt 1 5, pt 3 1, pt 1 7]
     < length [pt 2 0, pt 1 5, pt 3 1, pt 1 7] \<and>
   xcoord ([pt 2 0, pt 1 5, pt 3 1, pt 1 7]
             ! find_leftmost_point PInf [pt 2 0, pt 1 5, pt 3 1, pt 1 7])
     \<le> xcoord ([pt 2 0, pt 1 5, pt 3 1, pt 1 7] ! 3) \<and>
   xcoord ([pt 2 0, pt 1 5, pt 3 1, pt 1 7]
             ! find_leftmost_point PInf [pt 2 0, pt 1 5, pt 3 1, pt 1 7])
     < xcoord ([pt 2 0, pt 1 5, pt 3 1, pt 1 7] ! 0)"
proof -
  have ne: "[pt 2 0, pt 1 5, pt 3 1, pt 1 7] \<noteq> []" by simp
  have "below (xcoord ([pt 2 0, pt 1 5, pt 3 1, pt 1 7] ! 0)) PInf" by simp
  then have ex: "\<exists>j<length [pt 2 0, pt 1 5, pt 3 1, pt 1 7].
      below (xcoord ([pt 2 0, pt 1 5, pt 3 1, pt 1 7] ! j)) PInf" by auto
  have val: "find_leftmost_point PInf [pt 2 0, pt 1 5, pt 3 1, pt 1 7] = 1"
    by (simp add: find_leftmost_point_def leftmost_step_def pt_def upt_rec)
  have three: "3 < length [pt 2 0, pt 1 5, pt 3 1, pt 1 7]" by simp
  have zero: "0 < find_leftmost_point PInf [pt 2 0, pt 1 5, pt 3 1, pt 1 7]"
    by (simp add: val)
  from find_leftmost_point_first_minimum [OF ne ex] val three zero show ?thesis by blast
qed

section \<open>The choice of a candidate\<close>

lemma draw_0: "draw rand 0 g = fst (rand g)"
  by (simp add: draw_def)

lemma draw_Suc: "draw rand (Suc k) g = draw rand k (snd (rand g))"
  by (simp add: draw_def)

text \<open>What \<open>find_new_point\<close> returns, if it returns.\<close>

lemma find_new_point_sound:
  "find_new_point rand points exceptions g = Some r \<Longrightarrow>
     (case r of Inl e \<Rightarrow> points = []
      | Inr (new_point, g') \<Rightarrow>
          points \<noteq> [] \<and> new_point < length points \<and> new_point \<notin> set exceptions)"
proof (induction rand points exceptions g r
    rule: find_new_point.raw_induct [rotated 1, consumes 1, case_names step])
  case (step f rand points exceptions g r)
  obtain d g1 where d: "rand g = (d, g1)" by (cases "rand g")
  note eq = step(2) [unfolded d prod.case Let_def]
  show ?case
  proof (cases "points = []")
    case True
    with eq show ?thesis by auto
  next
    case False
    show ?thesis
    proof (cases "d mod length points \<in> set exceptions")
      case True
      with eq False have "f rand points exceptions g1 = Some r"
        by simp
      then show ?thesis by (rule step(1))
    next
      case notin: False
      with eq False have "r = Inr (d mod length points, g1)"
        by simp
      with notin False show ?thesis by simp
    qed
  qed
qed

text \<open>It returns as soon as some draw is admissible.\<close>

lemma find_new_point_returns:
  assumes "points \<noteq> []" and "draw rand k g mod length points \<notin> set exceptions"
  shows "\<exists>new_point g'. find_new_point rand points exceptions g = Some (Inr (new_point, g'))"
  using assms(2)
proof (induction k arbitrary: g)
  case 0
  obtain d g1 where d: "rand g = (d, g1)" by (cases "rand g")
  with 0 assms(1) show ?case
    by (subst find_new_point.simps) (simp add: draw_0 Let_def)
next
  case (Suc k)
  obtain d g1 where d: "rand g = (d, g1)" by (cases "rand g")
  from Suc.prems d have "draw rand k g1 mod length points \<notin> set exceptions"
    by (simp add: draw_Suc)
  from Suc.IH [OF this] obtain c g' where
    "find_new_point rand points exceptions g1 = Some (Inr (c, g'))" by blast
  with d assms(1) show ?case
    by (subst find_new_point.simps) (simp add: Let_def)
qed

text \<open>
  Without an admissible draw the loop never ends: a result implies an admissible draw.
\<close>

lemma find_new_point_needs_draw:
  "find_new_point rand points exceptions g = Some r \<Longrightarrow> points \<noteq> [] \<Longrightarrow>
     \<exists>k. draw rand k g mod length points \<notin> set exceptions"
proof (induction rand points exceptions g r
    rule: find_new_point.raw_induct [rotated 1, consumes 1, case_names step])
  case (step f rand points exceptions g r)
  obtain d g1 where d: "rand g = (d, g1)" by (cases "rand g")
  note eq = step(2) [unfolded d prod.case Let_def]
  show ?case
  proof (cases "d mod length points \<in> set exceptions")
    case True
    with eq step(3) have "f rand points exceptions g1 = Some r"
      by simp
    from step(1) [OF this step(3)] obtain k where
      "draw rand k g1 mod length points \<notin> set exceptions" ..
    with d have "draw rand (Suc k) g mod length points \<notin> set exceptions"
      by (simp add: draw_Suc)
    then show ?thesis ..
  next
    case False
    with d have "draw rand 0 g mod length points \<notin> set exceptions"
      by (simp add: draw_0)
    then show ?thesis ..
  qed
qed

text \<open>
  C8.  For a non-empty vector of points and a list of exceptions that leaves some index
  below \<open>points.size()\<close> free, \<open>find_new_point\<close> returns, and returns an index below
  \<open>points.size()\<close> that is no exception.  The pseudo-random stream enters as the
  assumption that, from the current state of the generator on, some draw has an
  admissible remainder.
\<close>

theorem find_new_point_terminates:
  assumes "points \<noteq> []"
    and "\<exists>i<length points. i \<notin> set exceptions"
    and "\<exists>k. draw rand k g mod length points \<notin> set exceptions"
  shows "\<exists>new_point g'. find_new_point rand points exceptions g = Some (Inr (new_point, g'))
           \<and> new_point < length points \<and> new_point \<notin> set exceptions"
proof -
  from assms(3) obtain k where "draw rand k g mod length points \<notin> set exceptions" ..
  from find_new_point_returns [OF assms(1) this] obtain c g' where
    r: "find_new_point rand points exceptions g = Some (Inr (c, g'))" by blast
  from find_new_point_sound [OF r] have "c < length points \<and> c \<notin> set exceptions" by simp
  with r show ?thesis by blast
qed

text \<open>
  Three points, the exceptions 0 and 1, and the generator that counts upwards from 10:
  the draws 10 and 11 leave the remainders 1 and 2, so the second draw is admissible.
\<close>

theorem find_new_point_terminates_witness:
  "\<exists>new_point g'.
     find_new_point counter [pt 0 0, pt 1 0, pt 0 1] [0, 1] 10 = Some (Inr (new_point, g'))
       \<and> new_point < length [pt 0 0, pt 1 0, pt 0 1] \<and> new_point \<notin> set [0, 1]"
proof -
  have ne: "[pt 0 0, pt 1 0, pt 0 1] \<noteq> []" by simp
  have "(2::nat) < length [pt 0 0, pt 1 0, pt 0 1] \<and> (2::nat) \<notin> set [0, 1]" by simp
  then have free: "\<exists>i<length [pt 0 0, pt 1 0, pt 0 1]. i \<notin> set [0, 1]" by blast
  have "draw counter (Suc 0) 10 mod length [pt 0 0, pt 1 0, pt 0 1] \<notin> set [0, 1]"
    by (simp add: draw_def counter_def)
  then have adm: "\<exists>k. draw counter k 10 mod length [pt 0 0, pt 1 0, pt 0 1] \<notin> set [0, 1]" ..
  show ?thesis by (rule find_new_point_terminates [OF ne free adm])
qed

section \<open>Small inputs\<close>

lemma find_convex_hull_upto_two:
  "find_convex_hull ar rand [] g = Some (Inr ([], g))"
  "find_convex_hull ar rand [p] g = Some (Inr ([p], g))"
  "find_convex_hull ar rand [p, q] g =
     Some (Inr (if xcoord q < xcoord p then [q, p] else [p, q], g))"
  by (simp_all add: find_convex_hull_def find_leftmost_point_def leftmost_step_def upt_rec Let_def)


text \<open>
  C6.  \<open>find_convex_hull\<close> returns the empty sequence for no point, the point itself for
  one point, and for two points both of them, the one with the strictly smaller
  x-coordinate first (the first one if the x-coordinates are equal).  The generator is not
  used.
\<close>

theorem find_convex_hull_small:
  "find_convex_hull ar rand [] g = Some (Inr ([], g)) \<and>
   find_convex_hull ar rand [p] g = Some (Inr ([p], g)) \<and>
   find_convex_hull ar rand [p, q] g =
     Some (Inr (if xcoord q < xcoord p then [q, p] else [p, q], g))"
  by (simp only: find_convex_hull_upto_two)

theorem find_convex_hull_small_witness:
  "find_convex_hull exact_arith counter [] 10 = Some (Inr ([], 10)) \<and>
   find_convex_hull exact_arith counter [pt 4 2] 10 = Some (Inr ([pt 4 2], 10)) \<and>
   find_convex_hull exact_arith counter [pt 4 2, pt 1 3] 10 = Some (Inr ([pt 1 3, pt 4 2], 10)) \<and>
   find_convex_hull exact_arith counter [pt 1 3, pt 4 2] 10 = Some (Inr ([pt 1 3, pt 4 2], 10)) \<and>
   find_convex_hull exact_arith counter [pt 1 3, pt 1 2] 10 = Some (Inr ([pt 1 3, pt 1 2], 10))"
  using find_convex_hull_small [of exact_arith counter 10 "pt 4 2" "pt 1 3"]
    find_convex_hull_small [of exact_arith counter 10 "pt 1 3" "pt 4 2"]
    find_convex_hull_small [of exact_arith counter 10 "pt 1 3" "pt 1 2"]
  by (simp add: pt_def)

text \<open>The generator \<open>counter\<close> is fair for two or more points.\<close>

lemma draw_counter: "draw counter k g = g + k"
proof (induction k arbitrary: g)
  case 0
  show ?case by (simp add: draw_def counter_def)
next
  case (Suc k)
  have "draw counter (Suc k) g = draw counter k (Suc g)"
    by (simp add: draw_Suc counter_def)
  with Suc show ?case by simp
qed

lemma fair_counter:
  assumes "2 \<le> n"
  shows "fair counter n"
  unfolding fair_def
proof (intro allI)
  fix g e :: nat
  show "\<exists>k. draw counter k g mod n \<noteq> e"
  proof (cases "g mod n = e")
    case False
    then have "draw counter 0 g mod n \<noteq> e" by (simp add: draw_counter)
    then show ?thesis ..
  next
    case True
    from assms have "Suc g mod n \<noteq> g mod n"
      by (auto simp add: mod_Suc)
    with True have "draw counter 1 g mod n \<noteq> e" by (simp add: draw_counter)
    then show ?thesis ..
  qed
qed

section \<open>The main loop\<close>

text \<open>The candidate stays an index of a point, and never is the end of the hull.\<close>

lemma test_candidate_range:
  assumes "t < n" "c < n" "c \<noteq> e"
  shows "fst (test_candidate ar points ch e t (c, a)) < n \<and>
         fst (test_candidate ar points ch e t (c, a)) \<noteq> e"
  using assms by (simp add: test_candidate_def Let_def)

lemma fold_test_candidate_range:
  assumes "c < length points" "c \<noteq> e" "k \<le> length points"
  shows "fst (fold (test_candidate ar points ch e) [0..<k] (c, a)) < length points \<and>
         fst (fold (test_candidate ar points ch e) [0..<k] (c, a)) \<noteq> e"
  using assms(3)
proof (induction k)
  case 0
  with assms show ?case by simp
next
  case (Suc k)
  obtain c' a' where s: "fold (test_candidate ar points ch e) [0..<k] (c, a) = (c', a')"
    by (cases "fold (test_candidate ar points ch e) [0..<k] (c, a)")
  with Suc have "c' < length points" "c' \<noteq> e" "k < length points" by simp_all
  from test_candidate_range [OF this(3) this(1) this(2)] s show ?case by simp
qed

lemma sweep_range:
  assumes "c < length points" "c \<noteq> last ch"
  shows "fst (sweep ar points ch a c) < length points \<and> fst (sweep ar points ch a c) \<noteq> last ch"
  using fold_test_candidate_range [OF assms order_refl] by (simp add: sweep_def)

lemma extend_hull_sweep:
  assumes "ch \<noteq> []"
  shows "extend_hull ar points ch a c0 =
     (if fst (sweep ar points ch a c0) \<in> set ch
      then (if hd ch = fst (sweep ar points ch a c0) then ch
            else ch @ [fst (sweep ar points ch a c0)], snd (sweep ar points ch a c0), False)
      else (ch @ [fst (sweep ar points ch a c0)], snd (sweep ar points ch a c0), True))"
  using assms by (simp add: extend_hull_def sweep_def Let_def case_prod_beta)

lemma hull_inv_snoc:
  assumes "hull_inv points ch" "c < length points" "c \<notin> set ch"
  shows "hull_inv points (ch @ [c])"
  using assms by (simp add: hull_inv_def)

lemma hull_inv_nonempty:
  assumes "hull_inv points ch"
  shows "ch \<noteq> []" "points \<noteq> []"
  using assms by (cases ch; auto simp add: hull_inv_def)+

lemma hull_inv_length:
  assumes "hull_inv points ch"
  shows "length ch \<le> length points"
proof -
  from assms have "set ch \<subseteq> {..<length points}" "distinct ch"
    by (auto simp add: hull_inv_def list_all_iff)
  then have "card (set ch) \<le> card {..<length points}"
    by (intro card_mono) auto
  with \<open>distinct ch\<close> show ?thesis by (simp add: distinct_card)
qed

lemma closed_walk_final:
  assumes "hull_inv points ch" "c \<in> set ch" "c \<noteq> last ch"
  shows "closed_walk ch (if hd ch = c then ch else ch @ [c])"
proof -
  from assms(1) have ne: "ch \<noteq> []" and d: "distinct ch" by (simp_all add: hull_inv_def)
  from assms(2,3) ne have "c \<in> set (butlast ch)"
    by (metis append_butlast_last_id in_set_conv_decomp_last insert_iff list.set(2) rotate1.simps(2) set_rotate1)
  with ne d show ?thesis
    by (auto simp add: closed_walk_def distinct_butlast)
qed

lemma hull_loop_step:
  assumes "hull_inv points ch"
    and "find_new_point rand points [last ch] g = Some (Inr (c0, g1))"
  shows "hull_loop ar rand points ch a g =
     (if fst (sweep ar points ch a c0) \<in> set ch
      then Some (Inr (if hd ch = fst (sweep ar points ch a c0) then ch
                      else ch @ [fst (sweep ar points ch a c0)], snd (sweep ar points ch a c0), g1))
      else hull_loop ar rand points (ch @ [fst (sweep ar points ch a c0)])
             (snd (sweep ar points ch a c0)) g1)"
proof -
  from assms(1) have "ch \<noteq> []" by (simp add: hull_inv_def)
  with assms(2) show ?thesis
    by (subst hull_loop.simps) (simp add: extend_hull_sweep)
qed

text \<open>
  If the loop returns, it returns a closed walk of indices of points, and no error.  With
  \<open>fold_test_candidate_range\<close> this also shows that every read \<open>points[i]\<close> of
  \<open>find_convex_hull\<close> is within the vector.
\<close>

lemma hull_loop_sound:
  "hull_loop ar rand points ch a g = Some r \<Longrightarrow> hull_inv points ch \<Longrightarrow>
     \<exists>h a' g'. r = Inr (h, a', g') \<and> closed_walk ch h \<and> list_all (\<lambda>i. i < length points) h"
proof (induction ar rand points ch a g r
    rule: hull_loop.raw_induct [rotated 1, consumes 1, case_names step])
  case (step f ar rand points ch a g r)
  from step(3) have ne: "ch \<noteq> []" and pne: "points \<noteq> []"
    by (rule hull_inv_nonempty)+
  from step(2) obtain r0 where r0: "find_new_point rand points [last ch] g = Some r0"
    by (cases "find_new_point rand points [last ch] g") auto
  from find_new_point_sound [OF r0] pne obtain c0 g1 where
    c0: "r0 = Inr (c0, g1)" "c0 < length points" "c0 \<noteq> last ch"
    by (cases r0) auto
  let ?c = "fst (sweep ar points ch a c0)"
  let ?a = "snd (sweep ar points ch a c0)"
  from sweep_range [OF c0(2) c0(3)] have c: "?c < length points" "?c \<noteq> last ch" by simp_all
  show ?case
  proof (cases "?c \<in> set ch")
    case True
    with step(2) r0 c0(1) ne have "r = Inr (if hd ch = ?c then ch else ch @ [?c], ?a, g1)"
      by (simp add: extend_hull_sweep)
    moreover have "closed_walk ch (if hd ch = ?c then ch else ch @ [?c])"
      using step(3) True c(2) by (rule closed_walk_final)
    moreover from step(3) c(1) have "list_all (\<lambda>i. i < length points) (if hd ch = ?c then ch else ch @ [?c])"
      by (simp add: hull_inv_def)
    ultimately show ?thesis by blast
  next
    case False
    with step(2) r0 c0(1) ne have "f ar rand points (ch @ [?c]) ?a g1 = Some r"
      by (simp add: extend_hull_sweep)
    moreover have "hull_inv points (ch @ [?c])"
      using step(3) c(1) False by (rule hull_inv_snoc)
    ultimately obtain h a' g' where
      h: "r = Inr (h, a', g')" "closed_walk (ch @ [?c]) h" "list_all (\<lambda>i. i < length points) h"
      using step(1) by blast
    from h(2) ne have "closed_walk ch h" by (auto simp add: closed_walk_def)
    with h show ?thesis by blast
  qed
qed

text \<open>
  With a fair generator the loop returns: every round that does not end the loop makes the
  hull longer, and a sequence of pairwise different indices is no longer than \<open>points\<close>.
\<close>

lemma fair_find_new_point:
  assumes "fair rand (length points)" "points \<noteq> []"
  shows "\<exists>c g'. find_new_point rand points [e] g = Some (Inr (c, g'))"
proof -
  from assms(1) obtain k where "draw rand k g mod length points \<noteq> e"
    unfolding fair_def by blast
  then have "draw rand k g mod length points \<notin> set [e]" by simp
  with assms(2) show ?thesis by (rule find_new_point_returns)
qed

lemma hull_loop_returns:
  assumes "fair rand (length points)"
  shows "hull_inv points ch \<Longrightarrow> \<exists>r. hull_loop ar rand points ch a g = Some r"
proof (induction "length points - length ch" arbitrary: ch a g rule: less_induct)
  case less
  from less.prems have ne: "ch \<noteq> []" and pne: "points \<noteq> []"
    by (rule hull_inv_nonempty)+
  from fair_find_new_point [OF assms pne] obtain c0 g1 where
    r0: "find_new_point rand points [last ch] g = Some (Inr (c0, g1))" by blast
  from find_new_point_sound [OF r0] have c0: "c0 < length points" "c0 \<noteq> last ch" by simp_all
  let ?c = "fst (sweep ar points ch a c0)"
  let ?a = "snd (sweep ar points ch a c0)"
  from sweep_range [OF c0] have c: "?c < length points" "?c \<noteq> last ch" by simp_all
  note eq = hull_loop_step [OF less.prems r0, where a = a and ar = ar]
  show ?case
  proof (cases "?c \<in> set ch")
    case True
    with eq show ?thesis by simp
  next
    case False
    have inv: "hull_inv points (ch @ [?c])"
      using less.prems c(1) False by (rule hull_inv_snoc)
    from hull_inv_length [OF inv] have "length points - length (ch @ [?c]) < length points - length ch"
      by simp
    from less.hyps [OF this inv] obtain r where
      "hull_loop ar rand points (ch @ [?c]) ?a g1 = Some r" by blast
    with eq False show ?thesis by simp
  qed
qed

lemma find_leftmost_point_PInf:
  assumes "points \<noteq> []"
  shows "find_leftmost_point PInf points < length points"
proof -
  from assms have "0 < length points \<and> below (xcoord (points ! 0)) PInf" by simp
  then have "\<exists>j<length points. below (xcoord (points ! j)) PInf" by blast
  from find_leftmost_point_minimum [OF this] show ?thesis by simp
qed

lemma hull_inv_start:
  assumes "points \<noteq> []"
  shows "hull_inv points [find_leftmost_point PInf points]"
  using find_leftmost_point_PInf [OF assms] by (simp add: hull_inv_def)

lemma short_list:
  assumes "length (xs :: 'a list) < 3"
  shows "xs = [] \<or> (\<exists>p. xs = [p]) \<or> (\<exists>p q. xs = [p, q])"
proof (cases xs)
  case Nil
  then show ?thesis by simp
next
  case (Cons p ys)
  show ?thesis
  proof (cases ys)
    case Nil
    with Cons show ?thesis by simp
  next
    case (Cons q zs)
    with assms \<open>xs = p # ys\<close> have "zs = []" by simp
    with Cons \<open>xs = p # ys\<close> show ?thesis by simp
  qed
qed

lemma find_convex_hull_general:
  assumes "3 \<le> length points"
  shows "find_convex_hull ar rand points g =
     (case hull_loop ar rand points [find_leftmost_point PInf points] True g of
        None \<Rightarrow> None
      | Some (Inl e) \<Rightarrow> Some (Inl e)
      | Some (Inr (h, a, g')) \<Rightarrow> Some (Inr (hull_points points h a, g')))"
proof -
  from assms have "length points \<noteq> 0" "length points \<noteq> 1" "length points \<noteq> 2" by arith+
  then show ?thesis by (simp add: find_convex_hull_def Let_def)
qed

lemma find_convex_hull_sound:
  assumes "find_convex_hull ar rand points g = Some r"
  shows "\<exists>out g'. r = Inr (out, g')"
proof (cases "length points < 3")
  case True
  from short_list [OF this] assms show ?thesis
    by (auto simp add: find_convex_hull_upto_two)
next
  case False
  then have pne: "points \<noteq> []" and three: "3 \<le> length points" by auto
  note eq = assms [unfolded find_convex_hull_general [OF three]]
  from eq obtain r0 where
    r0: "hull_loop ar rand points [find_leftmost_point PInf points] True g = Some r0"
    by (cases "hull_loop ar rand points [find_leftmost_point PInf points] True g") auto
  from hull_loop_sound [OF r0 hull_inv_start [OF pne]] obtain h a' g' where
    "r0 = Inr (h, a', g')" by blast
  with eq r0 show ?thesis by auto
qed

lemma find_convex_hull_returns:
  assumes "length points < 3 \<or> fair rand (length points)"
  shows "\<exists>out g'. find_convex_hull ar rand points g = Some (Inr (out, g'))"
proof (cases "length points < 3")
  case True
  from short_list [OF this] show ?thesis
    by (auto simp add: find_convex_hull_upto_two)
next
  case False
  then have pne: "points \<noteq> []" and three: "3 \<le> length points" by auto
  from False assms have "fair rand (length points)" by simp
  from hull_loop_returns [OF this hull_inv_start [OF pne]] obtain r0 where
    r0: "hull_loop ar rand points [find_leftmost_point PInf points] True g = Some r0" by blast
  from hull_loop_sound [OF r0 hull_inv_start [OF pne]] obtain h a' g' where
    "r0 = Inr (h, a', g')" by blast
  with r0 show ?thesis
    by (simp add: find_convex_hull_general [OF three])
qed

section \<open>Arithmetic without rounding\<close>

text \<open>
  The program uses the arithmetic only for the triplets of input points.  Two arithmetics
  that store the same determinants and dot products for them give the same sweep, the
  same walk and the same result.
\<close>

lemma same_triplets_sym:
  "same_triplets ar ar' points \<Longrightarrow> same_triplets ar' ar points"
  by (simp add: same_triplets_def)

lemma test_candidate_same:
  assumes "same_triplets ar ar' points"
    and "e < length points" "t < length points" "c < length points"
  shows "test_candidate ar points ch e t (c, a) = test_candidate ar' points ch e t (c, a)"
  using assms by (simp add: test_candidate_def same_triplets_def)

lemma fold_test_candidate_same:
  assumes "same_triplets ar ar' points"
    and "e < length points" "c < length points" "c \<noteq> e"
  shows "k \<le> length points \<Longrightarrow>
    fold (test_candidate ar points ch e) [0..<k] (c, a)
      = fold (test_candidate ar' points ch e) [0..<k] (c, a)"
proof (induction k)
  case 0
  show ?case by simp
next
  case (Suc k)
  obtain c' a' where s: "fold (test_candidate ar points ch e) [0..<k] (c, a) = (c', a')"
    by (cases "fold (test_candidate ar points ch e) [0..<k] (c, a)")
  from Suc.prems have k: "k < length points" by simp
  from fold_test_candidate_range [OF assms(3,4), where k = k and ar = ar and ch = ch and a = a]
    k s
  have "c' < length points" by simp
  from test_candidate_same [OF assms(1,2) k this, of ch a']
  have step: "test_candidate ar points ch e k (c', a') = test_candidate ar' points ch e k (c', a')" .
  from Suc.IH k s have s': "fold (test_candidate ar' points ch e) [0..<k] (c, a) = (c', a')"
    by simp
  show ?case by (simp add: s s' step)
qed

lemma sweep_same:
  assumes "same_triplets ar ar' points" "hull_inv points ch"
    and "c < length points" "c \<noteq> last ch"
  shows "sweep ar points ch a c = sweep ar' points ch a c"
proof -
  from assms(2) have "last ch < length points"
    by (simp add: hull_inv_def list_all_iff)
  from fold_test_candidate_same [OF assms(1) this assms(3,4) order_refl]
  show ?thesis by (simp add: sweep_def)
qed

lemma hull_loop_same:
  "hull_loop ar rand points ch a g = Some r \<Longrightarrow> same_triplets ar ar' points \<Longrightarrow>
   hull_inv points ch \<Longrightarrow> hull_loop ar' rand points ch a g = Some r"
proof (induction ar rand points ch a g r
    rule: hull_loop.raw_induct [rotated 1, consumes 1, case_names step])
  case (step f ar rand points ch a g r)
  note same = step(3) and hi = step(4)
  from hi have ne: "ch \<noteq> []" and pne: "points \<noteq> []" by (rule hull_inv_nonempty)+
  from step(2) obtain r0 where r0: "find_new_point rand points [last ch] g = Some r0"
    by (cases "find_new_point rand points [last ch] g") auto
  from find_new_point_sound [OF r0] pne obtain c0 g1 where
    c0: "r0 = Inr (c0, g1)" "c0 < length points" "c0 \<noteq> last ch"
    by (cases r0) auto
  from r0 c0(1) have fnp: "find_new_point rand points [last ch] g = Some (Inr (c0, g1))"
    by simp
  note sw = sweep_same [OF same hi c0(2,3), of a]
  note eq' = hull_loop_step [OF hi fnp, where ar = ar' and a = a]
  let ?c = "fst (sweep ar points ch a c0)"
  let ?a = "snd (sweep ar points ch a c0)"
  from sweep_range [OF c0(2,3)] have c: "?c < length points" by simp
  show ?case
  proof (cases "?c \<in> set ch")
    case True
    with step(2) r0 c0(1) ne have "r = Inr (if hd ch = ?c then ch else ch @ [?c], ?a, g1)"
      by (simp add: extend_hull_sweep)
    with eq' True sw show ?thesis by simp
  next
    case False
    with step(2) r0 c0(1) ne have "f ar rand points (ch @ [?c]) ?a g1 = Some r"
      by (simp add: extend_hull_sweep)
    moreover have "hull_inv points (ch @ [?c])"
      using hi c False by (rule hull_inv_snoc)
    ultimately have "hull_loop ar' rand points (ch @ [?c]) ?a g1 = Some r"
      using step(1) same by blast
    with eq' False sw show ?thesis by simp
  qed
qed

lemma hull_loop_transfer:
  assumes "same_triplets ar ar' points" "hull_inv points ch"
  shows "hull_loop ar rand points ch a g = hull_loop ar' rand points ch a g"
proof (cases "hull_loop ar rand points ch a g")
  case (Some r)
  with hull_loop_same [OF Some assms] show ?thesis by simp
next
  case None
  show ?thesis
  proof (cases "hull_loop ar' rand points ch a g")
    case None
    with \<open>hull_loop ar rand points ch a g = None\<close> show ?thesis by simp
  next
    case (Some r)
    from hull_loop_same [OF Some same_triplets_sym [OF assms(1)] assms(2)] None
    show ?thesis by simp
  qed
qed

text \<open>
  An arithmetic that is free of rounding on the input gives the result of the exact
  arithmetic.  An arithmetic that is exact on the integers up to \<open>2 ^ 53\<close> is free of
  rounding on points with integer coordinates of magnitude up to \<open>2 ^ 25\<close>.
\<close>

lemma find_convex_hull_transfer:
  assumes "rounding_free ar points"
  shows "find_convex_hull ar rand points g = find_convex_hull exact_arith rand points g"
proof (cases "length points < 3")
  case True
  from short_list [OF this] show ?thesis
    by (auto simp add: find_convex_hull_upto_two)
next
  case False
  then have pne: "points \<noteq> []" and three: "3 \<le> length points" by auto
  from assms have same: "same_triplets ar exact_arith points" by (simp add: rounding_free_def)
  show ?thesis
    by (simp only: find_convex_hull_general [OF three]
        hull_loop_transfer [OF same hull_inv_start [OF pne]])
qed

lemma integer_points_rounding_free:
  assumes "exact_on_integers ar" "integer_points (2 ^ 25) points"
  shows "rounding_free ar points"
  unfolding rounding_free_def same_triplets_def
proof (intro allI impI)
  fix i j k
  note ip = assms(2) [unfolded integer_points_def list_all_length, rule_format]
  assume "i < length points" "j < length points" "k < length points"
  from ip [OF this(1)] obtain x1 y1 :: int where
    c1: "xcoord (points ! i) = of_int x1" "ycoord (points ! i) = of_int y1"
        "\<bar>x1\<bar> \<le> 2 ^ 25" "\<bar>y1\<bar> \<le> 2 ^ 25" by auto
  from ip [OF \<open>j < length points\<close>] obtain x2 y2 :: int where
    c2: "xcoord (points ! j) = of_int x2" "ycoord (points ! j) = of_int y2"
        "\<bar>x2\<bar> \<le> 2 ^ 25" "\<bar>y2\<bar> \<le> 2 ^ 25" by auto
  from ip [OF \<open>k < length points\<close>] obtain x3 y3 :: int where
    c3: "xcoord (points ! k) = of_int x3" "ycoord (points ! k) = of_int y3"
        "\<bar>x3\<bar> \<le> 2 ^ 25" "\<bar>y3\<bar> \<le> 2 ^ 25" by auto
  note c = c1 c2 c3
  from triplet_init_integers [OF assms(1) c] triplet_init_integers [OF exact_arith_exact c]
  show "triplet_init ar (points ! i) (points ! j) (points ! k)
          = triplet_init exact_arith (points ! i) (points ! j) (points ! k)"
    by simp
qed

lemma integer_points_pt:
  assumes "list_all (\<lambda>(a, b). \<bar>a\<bar> \<le> B \<and> \<bar>b\<bar> \<le> B) ps"
  shows "integer_points B (map (\<lambda>(a, b). pt (of_int a) (of_int b)) ps)"
  using assms by (induction ps) (auto simp add: integer_points_def pt_def)

section \<open>The points of the hull\<close>

lemma rebuild_collinear_run:
  assumes "k \<le> length ch"
    and "\<forall>j. i \<le> j \<and> j < k \<longrightarrow> j = 0 \<or> ch ! j \<notin> set (take (j - 1) ch)"
    and "k = length ch \<or> (k \<noteq> 0 \<and> ch ! k \<in> set (take (k - 1) ch))"
  shows "i \<le> k \<Longrightarrow> rebuild_collinear points ch i acc =
           acc @ map (\<lambda>j. points ! (ch ! j)) [i..<k]"
  using assms(2)
proof (induction "k - i" arbitrary: i acc)
  case 0
  then have "i = k" by simp
  with assms(3) show ?case
    by (subst rebuild_collinear.simps) auto
next
  case (Suc d)
  then have lt: "i < k" by arith
  with assms(1) have il: "i < length ch" by simp
  from Suc.prems(2) lt have cond: "i = 0 \<or> ch ! i \<notin> set (take (i - 1) ch)" by simp
  from Suc.hyps(2) have d: "d = k - Suc i" by arith
  have "\<forall>j. Suc i \<le> j \<and> j < k \<longrightarrow> j = 0 \<or> ch ! j \<notin> set (take (j - 1) ch)"
  proof (intro allI impI)
    fix j assume "Suc i \<le> j \<and> j < k"
    then have "i \<le> j \<and> j < k" by simp
    with Suc.prems(2) show "j = 0 \<or> ch ! j \<notin> set (take (j - 1) ch)" by blast
  qed
  with Suc.hyps(1) [OF d] lt have
    ih: "rebuild_collinear points ch (Suc i) (acc @ [points ! (ch ! i)]) =
           (acc @ [points ! (ch ! i)]) @ map (\<lambda>j. points ! (ch ! j)) [Suc i..<k]"
    by simp
  from lt have "[i..<k] = i # [Suc i..<k]" by (simp add: upt_conv_Cons)
  with ih il cond show ?case
    by (subst rebuild_collinear.simps) auto
qed

lemma distinct_nth_notin_take:
  assumes "distinct xs" "j < length xs" "m \<le> j"
  shows "xs ! j \<notin> set (take m xs)"
proof
  assume "xs ! j \<in> set (take m xs)"
  then obtain i where "i < length (take m xs)" "take m xs ! i = xs ! j"
    by (auto simp add: in_set_conv_nth)
  with assms have "i < m" "i < length xs" "xs ! i = xs ! j" by simp_all
  with assms show False by (simp add: nth_eq_iff_index_eq)
qed

lemma rebuild_collinear_distinct:
  assumes "distinct ch"
  shows "rebuild_collinear points ch 0 [] = map (\<lambda>i. points ! i) ch"
proof -
  have "\<forall>j. 0 \<le> j \<and> j < length ch \<longrightarrow> j = 0 \<or> ch ! j \<notin> set (take (j - 1) ch)"
    using distinct_nth_notin_take [OF assms] by simp
  from rebuild_collinear_run [where i = 0 and acc = "[]" and points = points, OF order_refl this]
  have "rebuild_collinear points ch 0 [] = map (\<lambda>j. points ! (ch ! j)) [0..<length ch]"
    by simp
  also have "\<dots> = map (\<lambda>i. points ! i) (map (\<lambda>j. ch ! j) [0..<length ch])" by simp
  finally show ?thesis by (simp only: map_nth)
qed

lemma rebuild_collinear_repeat:
  assumes "distinct d" "r \<in> set (butlast d)"
  shows "rebuild_collinear points (d @ [r]) 0 [] = map (\<lambda>i. points ! i) d"
proof -
  let ?ch = "d @ [r]"
  from assms(2) have dne: "d \<noteq> []" by auto
  have run: "\<forall>j. 0 \<le> j \<and> j < length d \<longrightarrow> j = 0 \<or> ?ch ! j \<notin> set (take (j - 1) ?ch)"
  proof (intro allI impI)
    fix j assume j: "0 \<le> j \<and> j < length d"
    then have "d ! j \<notin> set (take (j - 1) d)"
      using distinct_nth_notin_take [OF assms(1), of j "j - 1"] by simp
    with j show "j = 0 \<or> ?ch ! j \<notin> set (take (j - 1) ?ch)"
      by (simp add: nth_append)
  qed
  from assms(2) dne have stop: "length d = length ?ch \<or>
      (length d \<noteq> 0 \<and> ?ch ! length d \<in> set (take (length d - 1) ?ch))"
    by (simp add: butlast_conv_take)
  have "length d \<le> length ?ch" by simp
  from rebuild_collinear_run [where i = 0 and acc = "[]" and points = points, OF this run stop]
  have "rebuild_collinear points ?ch 0 [] = map (\<lambda>j. points ! (?ch ! j)) [0..<length d]"
    by simp
  also have "\<dots> = map (\<lambda>j. points ! (d ! j)) [0..<length d]"
    by (simp add: nth_append)
  also have "\<dots> = map (\<lambda>i. points ! i) (map (\<lambda>j. d ! j) [0..<length d])" by simp
  finally show ?thesis by (simp only: map_nth)
qed

lemma closed_walk_cases:
  assumes "closed_walk ch h"
  shows "distinct h \<or> (\<exists>d r. h = d @ [r] \<and> distinct d \<and> r \<in> set (butlast d) \<and> r \<noteq> hd d)"
proof (cases "distinct h")
  case True
  then show ?thesis ..
next
  case False
  from assms have ne: "h \<noteq> []" by (simp add: closed_walk_def)
  then have h: "h = butlast h @ [last h]" by simp
  from assms False have *: "distinct (butlast h)" "last h \<in> set (butlast (butlast h))" "last h \<noteq> hd h"
    by (simp_all add: closed_walk_def)
  from *(2) have "butlast h \<noteq> []" by auto
  then have "hd h = hd (butlast h)"
    by (metis h hd_append2)
  with * h show ?thesis by metis
qed

lemma hull_points_collinear:
  assumes "closed_walk ch h"
  shows "hull_points points h True = map (\<lambda>i. points ! i) (if distinct h then h else butlast h)"
proof (cases "distinct h")
  case True
  then show ?thesis by (simp add: hull_points_def rebuild_collinear_distinct)
next
  case False
  with closed_walk_cases [OF assms] obtain d r where
    "h = d @ [r]" "distinct d" "r \<in> set (butlast d)" by blast
  with False show ?thesis
    by (simp add: hull_points_def rebuild_collinear_repeat)
qed

text \<open>Facts for the evaluation of the model at concrete inputs.\<close>

lemmas eval_defs = find_convex_hull_def find_leftmost_point_def leftmost_step_def
  hull_loop.simps find_new_point.simps extend_hull_def test_candidate_def find_orientation_def
  triplet_init_def exact_arith_def hull_points_def rebuild_collinear.simps replay_def
  recorded_draws_def pt_def upt_rec Let_def

text \<open>
  C1.  The claim is that no input point lies strictly outside the returned hull.  For the
  four points \<open>(0, 1)\<close>, \<open>(0, 0)\<close>, \<open>(0, 3)\<close>, \<open>(0, 2)\<close> of a vertical line and the recorded
  draws, in every arithmetic that is exact on the integers up to \<open>2 ^ 53\<close>, the walk
  starts at \<open>(0, 1)\<close>, the first point of smallest x, and returns \<open>(0, 1)\<close>, \<open>(0, 2)\<close>,
  \<open>(0, 0)\<close>: the input point \<open>(0, 3)\<close> lies beyond the line \<open>y = 2\<close>, below which all
  returned points lie.
\<close>

theorem find_convex_hull_excludes_point:
  assumes "exact_on_integers ar"
  shows "find_convex_hull ar replay [pt 0 1, pt 0 0, pt 0 3, pt 0 2] recorded_draws
     = Some (Inr ([pt 0 1, pt 0 2, pt 0 0], drop 3 recorded_draws)) \<and>
   cut_off 0 1 2 [pt 0 1, pt 0 2, pt 0 0] (pt 0 3)"
proof -
  have "integer_points (2 ^ 25) (map (\<lambda>(a, b). pt (of_int a) (of_int b))
          [(0, 1), (0, 0), (0, 3), (0, 2)])"
    by (rule integer_points_pt) simp
  then have "integer_points (2 ^ 25) [pt 0 1, pt 0 0, pt 0 3, pt 0 2]" by simp
  from integer_points_rounding_free [OF assms this]
  have "find_convex_hull ar replay [pt 0 1, pt 0 0, pt 0 3, pt 0 2] recorded_draws
      = find_convex_hull exact_arith replay [pt 0 1, pt 0 0, pt 0 3, pt 0 2] recorded_draws"
    by (rule find_convex_hull_transfer)
  also have "\<dots> = Some (Inr ([pt 0 1, pt 0 2, pt 0 0], drop 3 recorded_draws))"
    by (simp add: eval_defs)
  finally show ?thesis
    by (simp add: cut_off_def in_half_plane_def pt_def)
qed

theorem find_convex_hull_excludes_point_witness:
  "find_convex_hull exact_arith replay [pt 0 1, pt 0 0, pt 0 3, pt 0 2] recorded_draws
     = Some (Inr ([pt 0 1, pt 0 2, pt 0 0], drop 3 recorded_draws)) \<and>
   cut_off 0 1 2 [pt 0 1, pt 0 2, pt 0 0] (pt 0 3)"
  by (rule find_convex_hull_excludes_point [OF exact_arith_exact])

text \<open>
  C5.  The claim is that the hull index sequence repeats no index but a re-appended
  starting index, which is dropped, and that the returned sequence has no duplicate
  entries, also for inputs with coincident points.  In every arithmetic that is exact on
  the integers up to \<open>2 ^ 53\<close>, and with the recorded draws: for the points \<open>(0, 1)\<close>,
  \<open>(0, 2)\<close>, \<open>(1, 0)\<close>, \<open>(0, 0)\<close> the terminal step re-appends the index 2, which is not the
  starting index and is not dropped, so that the index sequence is 0, 2, 3, 1, 2 and the
  returned sequence contains \<open>(1, 0)\<close> twice; and for three coincident points \<open>(0, 0)\<close>
  the returned sequence is \<open>(0, 0)\<close> three times.
\<close>

theorem hull_repeats_index:
  assumes "exact_on_integers ar"
  shows "hull_loop ar replay [pt 0 1, pt 0 2, pt 1 0, pt 0 0]
       [find_leftmost_point PInf [pt 0 1, pt 0 2, pt 1 0, pt 0 0]] True recorded_draws
     = Some (Inr ([0, 2, 3, 1, 2], False, drop 5 recorded_draws)) \<and>
   find_convex_hull ar replay [pt 0 1, pt 0 2, pt 1 0, pt 0 0] recorded_draws
     = Some (Inr ([pt 0 1, pt 1 0, pt 0 0, pt 0 2, pt 1 0], drop 5 recorded_draws)) \<and>
   \<not> distinct [pt 0 1, pt 1 0, pt 0 0, pt 0 2, pt 1 0] \<and>
   find_convex_hull ar replay [pt 0 0, pt 0 0, pt 0 0] recorded_draws
     = Some (Inr ([pt 0 0, pt 0 0, pt 0 0], drop 5 recorded_draws)) \<and>
   \<not> distinct [pt 0 0, pt 0 0, pt 0 0]"
proof -
  let ?P = "[pt 0 1, pt 0 2, pt 1 0, pt 0 0]" and ?Q = "[pt 0 0, pt 0 0, pt 0 0]"
  have "integer_points (2 ^ 25) (map (\<lambda>(a, b). pt (of_int a) (of_int b))
          [(0, 1), (0, 2), (1, 0), (0, 0)])"
    by (rule integer_points_pt) simp
  then have "integer_points (2 ^ 25) ?P" by simp
  from integer_points_rounding_free [OF assms this] have rf: "rounding_free ar ?P" .
  have "integer_points (2 ^ 25) (map (\<lambda>(a, b). pt (of_int a) (of_int b))
          [(0, 0), (0, 0), (0, 0)])"
    by (rule integer_points_pt) simp
  then have "integer_points (2 ^ 25) ?Q" by simp
  from integer_points_rounding_free [OF assms this] have rfq: "rounding_free ar ?Q" .
  have start: "hull_inv ?P [find_leftmost_point PInf ?P]"
    by (rule hull_inv_start) simp
  from rf have "same_triplets ar exact_arith ?P" by (simp add: rounding_free_def)
  from hull_loop_transfer [OF this start]
  have "hull_loop ar replay ?P [find_leftmost_point PInf ?P] True recorded_draws
      = hull_loop exact_arith replay ?P [find_leftmost_point PInf ?P] True recorded_draws" .
  also have "\<dots> = Some (Inr ([0, 2, 3, 1, 2], False, drop 5 recorded_draws))"
    by (simp add: eval_defs)
  finally have walk: "hull_loop ar replay ?P [find_leftmost_point PInf ?P] True recorded_draws
      = Some (Inr ([0, 2, 3, 1, 2], False, drop 5 recorded_draws))" .
  have "find_convex_hull ar replay ?P recorded_draws
      = find_convex_hull exact_arith replay ?P recorded_draws"
    using rf by (rule find_convex_hull_transfer)
  also have "\<dots> = Some (Inr ([pt 0 1, pt 1 0, pt 0 0, pt 0 2, pt 1 0], drop 5 recorded_draws))"
    by (simp add: eval_defs)
  finally have out: "find_convex_hull ar replay ?P recorded_draws
      = Some (Inr ([pt 0 1, pt 1 0, pt 0 0, pt 0 2, pt 1 0], drop 5 recorded_draws))" .
  have "find_convex_hull ar replay ?Q recorded_draws
      = find_convex_hull exact_arith replay ?Q recorded_draws"
    using rfq by (rule find_convex_hull_transfer)
  also have "\<dots> = Some (Inr ([pt 0 0, pt 0 0, pt 0 0], drop 5 recorded_draws))"
    by (simp add: eval_defs)
  finally have outq: "find_convex_hull ar replay ?Q recorded_draws
      = Some (Inr ([pt 0 0, pt 0 0, pt 0 0], drop 5 recorded_draws))" .
  from walk out outq show ?thesis by simp
qed

theorem hull_repeats_index_witness:
  "hull_loop exact_arith replay [pt 0 1, pt 0 2, pt 1 0, pt 0 0]
       [find_leftmost_point PInf [pt 0 1, pt 0 2, pt 1 0, pt 0 0]] True recorded_draws
     = Some (Inr ([0, 2, 3, 1, 2], False, drop 5 recorded_draws)) \<and>
   find_convex_hull exact_arith replay [pt 0 1, pt 0 2, pt 1 0, pt 0 0] recorded_draws
     = Some (Inr ([pt 0 1, pt 1 0, pt 0 0, pt 0 2, pt 1 0], drop 5 recorded_draws)) \<and>
   \<not> distinct [pt 0 1, pt 1 0, pt 0 0, pt 0 2, pt 1 0] \<and>
   find_convex_hull exact_arith replay [pt 0 0, pt 0 0, pt 0 0] recorded_draws
     = Some (Inr ([pt 0 0, pt 0 0, pt 0 0], drop 5 recorded_draws)) \<and>
   \<not> distinct [pt 0 0, pt 0 0, pt 0 0]"
  by (rule hull_repeats_index [OF exact_arith_exact])

text \<open>
  What the loop does guarantee, for at least three points and every arithmetic: the index
  sequence with which it ends repeats no index among all entries but the last, and the
  last entry is new as well or repeats an earlier index other than the starting index.
  When all points were found collinear, the returned points are those of the pairwise
  different indices before such a repeated last entry.  With a fair generator the loop
  ends.
\<close>

lemma hull_indices_distinct_before_last:
  assumes "3 \<le> length points"
  shows "(\<forall>h a g'.
            hull_loop ar rand points [find_leftmost_point PInf points] True g
              = Some (Inr (h, a, g'))
            \<longrightarrow> distinct (butlast h) \<and>
                (distinct h \<or> last h \<in> set (butlast h) \<and> last h \<noteq> hd h) \<and>
                (a \<longrightarrow> hull_points points h a
                         = map (\<lambda>i. points ! i) (if distinct h then h else butlast h))) \<and>
         (fair rand (length points) \<longrightarrow>
            (\<exists>h a g'. hull_loop ar rand points [find_leftmost_point PInf points] True g
                         = Some (Inr (h, a, g'))))"
proof (intro conjI allI impI)
  fix h a g'
  assume run: "hull_loop ar rand points [find_leftmost_point PInf points] True g
                 = Some (Inr (h, a, g'))"
  from assms have "points \<noteq> []" by auto
  from hull_loop_sound [OF run hull_inv_start [OF this]]
  have cw: "closed_walk [find_leftmost_point PInf points] h" by simp
  then show "distinct (butlast h)"
    and "distinct h \<or> last h \<in> set (butlast h) \<and> last h \<noteq> hd h"
    by (auto simp add: closed_walk_def dest: in_set_butlastD)
  assume a
  with hull_points_collinear [OF cw]
  show "hull_points points h a
          = map (\<lambda>i. points ! i) (if distinct h then h else butlast h)"
    by simp
next
  assume f: "fair rand (length points)"
  from assms have pne: "points \<noteq> []" by auto
  from hull_loop_returns [OF f hull_inv_start [OF pne]] obtain r where
    r: "hull_loop ar rand points [find_leftmost_point PInf points] True g = Some r" by blast
  from hull_loop_sound [OF r hull_inv_start [OF pne]]
  show "\<exists>h a g'. hull_loop ar rand points [find_leftmost_point PInf points] True g
                     = Some (Inr (h, a, g'))"
    using r by blast
qed

section \<open>Points on a line\<close>

text \<open>
  On a line \<open>y = m * x + q\<close> the determinant of every triplet is zero and the sign of the dot
  product is that of \<open>(x1 - x2) * (x3 - x2)\<close>.
\<close>

lemma line_orientation:
  assumes "ycoord p1 = m * xcoord p1 + q" "ycoord p2 = m * xcoord p2 + q"
    "ycoord p3 = m * xcoord p3 + q"
  shows "right_turn (find_orientation (triplet_init exact_arith p1 p2 p3)) =
           ((xcoord p1 - xcoord p2) * (xcoord p3 - xcoord p2) < 0)"
    and "collinearity (find_orientation (triplet_init exact_arith p1 p2 p3)) =
           ((xcoord p1 - xcoord p2) * (xcoord p3 - xcoord p2) \<noteq> 0)"
proof -
  let ?u = "xcoord p1 - xcoord p2" and ?v = "xcoord p3 - xcoord p2"
  have det: "determinent (triplet_init exact_arith p1 p2 p3) = Finite 0"
    using assms by (simp add: triplet_init_def exact_arith_def Let_def algebra_simps)
  have dot: "dot_product (triplet_init exact_arith p1 p2 p3) = Finite ((1 + m * m) * (?u * ?v))"
    using assms by (simp add: triplet_init_def exact_arith_def Let_def algebra_simps)
  have "0 \<le> m * m" by simp
  then have pos: "0 < 1 + m * m" by arith
  from pos have neg_iff: "(1 + m * m) * (?u * ?v) < 0 \<longleftrightarrow> ?u * ?v < 0"
    by (simp add: mult_less_0_iff[of "1 + m * m"] not_less_iff_gr_or_eq)
  from pos have pos_iff: "0 < (1 + m * m) * (?u * ?v) \<longleftrightarrow> 0 < ?u * ?v"
    by (simp add: zero_less_mult_iff[of "1 + m * m"] not_less_iff_gr_or_eq)
  have flags: "right_turn (triplet_init exact_arith p1 p2 p3) = False"
    "collinearity (triplet_init exact_arith p1 p2 p3) = False"
    by (simp_all add: triplet_init_def Let_def)
  show "right_turn (find_orientation (triplet_init exact_arith p1 p2 p3)) = (?u * ?v < 0)"
    unfolding find_orientation_def det dot positive.simps negative.simps is_zero.simps
      neg_iff pos_iff
    by (simp add: flags)
  show "collinearity (find_orientation (triplet_init exact_arith p1 p2 p3)) = (?u * ?v \<noteq> 0)"
    unfolding find_orientation_def det dot positive.simps negative.simps is_zero.simps
      neg_iff pos_iff
    by (auto simp add: flags)
qed

lemma on_line_nth:
  assumes "on_line m q points" "i < length points"
  shows "ycoord (points ! i) = m * xcoord (points ! i) + q"
  using assms by (simp add: on_line_def list_all_length)

lemma distinct_x_nth:
  assumes "distinct (map xcoord points)" "i < length points" "j < length points" "i \<noteq> j"
  shows "xcoord (points ! i) \<noteq> xcoord (points ! j)"
proof -
  have "(map xcoord points ! i = map xcoord points ! j) = (i = j)"
    using assms by (intro nth_eq_iff_index_eq) simp_all
  with assms(2,3,4) show ?thesis by simp
qed

text \<open>
  The body of the sweep for points on a line with pairwise different x-coordinates: every
  triplet tested is collinear, and the test point replaces the candidate if it lies
  strictly between the end of the hull and the candidate, or if the candidate is on the
  hull and the test point is not beyond its first entry.
\<close>

lemma test_candidate_line:
  assumes "on_line m q points" "distinct (map xcoord points)"
    and "e < length points" "t < length points" "c < length points" "t \<noteq> c" "t \<noteq> e"
  shows "test_candidate exact_arith points ch e t (c, a) =
     (let c1 = (if (xcoord (points ! e) - xcoord (points ! t))
                     * (xcoord (points ! c) - xcoord (points ! t)) < 0 then t else c)
      in (if c1 \<in> set ch \<and> t \<notin> set (tl ch) then t else c1, a))"
proof -
  from distinct_x_nth [OF assms(2)] assms(3-7)
  have "xcoord (points ! e) - xcoord (points ! t) \<noteq> 0"
    "xcoord (points ! c) - xcoord (points ! t) \<noteq> 0" by auto
  then have nz: "(xcoord (points ! e) - xcoord (points ! t))
                     * (xcoord (points ! c) - xcoord (points ! t)) \<noteq> 0" by simp
  note lo = line_orientation [OF on_line_nth [OF assms(1,3)] on_line_nth [OF assms(1,4)]
      on_line_nth [OF assms(1,5)]]
  from assms(6,7) nz show ?thesis
    by (simp add: test_candidate_def Let_def lo)
qed

text \<open>
  The sweep from the end of the hull: once the candidate is the nearest point to the right
  of the end it stays, and when that point is the test point it becomes the candidate.
\<close>

lemma walk_inv_visited_less:
  assumes "walk_inv points ch" "t \<in> set ch" "t \<noteq> last ch"
  shows "xcoord (points ! t) < xcoord (points ! last ch)"
proof -
  from assms(1) have ne: "ch \<noteq> []" by (simp add: walk_inv_def hull_inv_def)
  then have ch: "ch = butlast ch @ [last ch]" by simp
  with assms(2,3) have "t \<in> set (butlast ch)"
    by (metis Un_iff empty_iff empty_set insert_iff list.set(2) set_append)
  moreover from assms(1) have
    "sorted_wrt (\<lambda>i j. xcoord (points ! i) < xcoord (points ! j)) (butlast ch @ [last ch])"
    using ch by (simp add: walk_inv_def)
  ultimately show ?thesis by (simp add: sorted_wrt_append)
qed

lemma walk_inv_end:
  assumes "walk_inv points ch"
  shows "last ch < length points" "last ch \<in> set ch"
  using assms by (auto simp add: walk_inv_def hull_inv_def list_all_iff)

lemma test_candidate_line_flag:
  assumes "on_line m q points" "distinct (map xcoord points)"
    and "e < length points" "t < length points" "c < length points"
  shows "snd (test_candidate exact_arith points ch e t (c, True)) = True"
proof (cases "t \<noteq> c \<and> t \<noteq> e")
  case True
  with test_candidate_line [OF assms] show ?thesis by (simp add: Let_def)
next
  case False
  then show ?thesis by (auto simp add: test_candidate_def)
qed

lemma test_candidate_line_keep:
  assumes "on_line m q points" "distinct (map xcoord points)" "walk_inv points ch"
    and "n < length points" "n \<notin> set ch"
    and "\<forall>u<length points. u \<notin> set ch \<longrightarrow> xcoord (points ! n) \<le> xcoord (points ! u)"
    and "t < length points"
  shows "fst (test_candidate exact_arith points ch (last ch) t (n, a)) = n"
proof (cases "t \<noteq> n \<and> t \<noteq> last ch")
  case False
  then show ?thesis by (auto simp add: test_candidate_def)
next
  case True
  note e = walk_inv_end [OF assms(3)]
  from assms(3,4,5) have en: "xcoord (points ! last ch) < xcoord (points ! n)"
    by (simp add: walk_inv_def)
  have "0 < (xcoord (points ! last ch) - xcoord (points ! t))
            * (xcoord (points ! n) - xcoord (points ! t))"
  proof (cases "t \<in> set ch")
    case True
    with assms(3) \<open>t \<noteq> n \<and> t \<noteq> last ch\<close>
    have "xcoord (points ! t) < xcoord (points ! last ch)"
      by (simp add: walk_inv_visited_less)
    with en show ?thesis by (intro mult_pos_pos) simp_all
  next
    case False
    with assms(6,7) have "xcoord (points ! n) \<le> xcoord (points ! t)" by simp
    moreover from distinct_x_nth [OF assms(2) assms(7) assms(4)] True
    have "xcoord (points ! t) \<noteq> xcoord (points ! n)" by simp
    ultimately have "xcoord (points ! n) < xcoord (points ! t)" by simp
    with en show ?thesis by (intro mult_neg_neg) simp_all
  qed
  then have "\<not> (xcoord (points ! last ch) - xcoord (points ! t))
            * (xcoord (points ! n) - xcoord (points ! t)) < 0" by simp
  with test_candidate_line [OF assms(1,2) e(1) assms(7) assms(4), of ch a] True assms(5)
  show ?thesis by (simp add: Let_def)
qed

lemma test_candidate_line_take:
  assumes "on_line m q points" "distinct (map xcoord points)" "walk_inv points ch"
    and "n < length points" "n \<notin> set ch"
    and "\<forall>u<length points. u \<notin> set ch \<longrightarrow> xcoord (points ! n) \<le> xcoord (points ! u)"
    and "c < length points" "c \<noteq> last ch"
  shows "fst (test_candidate exact_arith points ch (last ch) n (c, a)) = n"
proof (cases "n = c")
  case True
  then show ?thesis by (simp add: test_candidate_def)
next
  case False
  note e = walk_inv_end [OF assms(3)]
  from e(2) assms(5) have ne: "n \<noteq> last ch" by auto
  from assms(3,4,5) have en: "xcoord (points ! last ch) < xcoord (points ! n)"
    by (simp add: walk_inv_def)
  note tc = test_candidate_line [OF assms(1,2) e(1) assms(4) assms(7) False ne, of ch a]
  show ?thesis
  proof (cases "c \<in> set ch")
    case True
    with assms(3,8) have "xcoord (points ! c) < xcoord (points ! last ch)"
      by (simp add: walk_inv_visited_less)
    with en have "0 < (xcoord (points ! last ch) - xcoord (points ! n))
            * (xcoord (points ! c) - xcoord (points ! n))"
      by (intro mult_neg_neg) simp_all
    then have "\<not> (xcoord (points ! last ch) - xcoord (points ! n))
            * (xcoord (points ! c) - xcoord (points ! n)) < 0" by simp
    moreover from assms(5) have "n \<notin> set (tl ch)"
      by (cases ch) simp_all
    ultimately show ?thesis using tc True by (simp add: Let_def)
  next
    case notin: False
    with assms(6,7) have "xcoord (points ! n) \<le> xcoord (points ! c)" by simp
    moreover from distinct_x_nth [OF assms(2) assms(4) assms(7) False]
    have "xcoord (points ! n) \<noteq> xcoord (points ! c)" .
    ultimately have "xcoord (points ! n) < xcoord (points ! c)" by simp
    with en have "(xcoord (points ! last ch) - xcoord (points ! n))
            * (xcoord (points ! c) - xcoord (points ! n)) < 0"
      by (intro mult_neg_pos) simp_all
    with tc assms(5) show ?thesis by (simp add: Let_def)
  qed
qed

lemma fold_line_flag:
  assumes "on_line m q points" "distinct (map xcoord points)"
    and "e < length points" "c < length points" "c \<noteq> e"
  shows "k \<le> length points \<Longrightarrow>
    snd (fold (test_candidate exact_arith points ch e) [0..<k] (c, True)) = True"
proof (induction k)
  case 0
  show ?case by simp
next
  case (Suc k)
  obtain c' a' where s: "fold (test_candidate exact_arith points ch e) [0..<k] (c, True) = (c', a')"
    by (cases "fold (test_candidate exact_arith points ch e) [0..<k] (c, True)")
  from Suc have k: "k < length points" and a': "a' = True" using s by simp_all
  from fold_test_candidate_range [OF assms(4,5), where k = k and ar = exact_arith and ch = ch
      and a = True] k s
  have "c' < length points" by simp
  from test_candidate_line_flag [OF assms(1,2,3) k this] s a' show ?case by simp
qed

lemma fold_line_next:
  assumes "on_line m q points" "distinct (map xcoord points)" "walk_inv points ch"
    and "n < length points" "n \<notin> set ch"
    and "\<forall>u<length points. u \<notin> set ch \<longrightarrow> xcoord (points ! n) \<le> xcoord (points ! u)"
    and "c < length points" "c \<noteq> last ch"
  shows "k \<le> length points \<Longrightarrow> n < k \<Longrightarrow>
    fst (fold (test_candidate exact_arith points ch (last ch)) [0..<k] (c, a)) = n"
proof (induction k)
  case 0
  then show ?case by simp
next
  case (Suc k)
  obtain c' a' where s: "fold (test_candidate exact_arith points ch (last ch)) [0..<k] (c, a) = (c', a')"
    by (cases "fold (test_candidate exact_arith points ch (last ch)) [0..<k] (c, a)")
  from Suc.prems have k: "k < length points" by simp
  from fold_test_candidate_range [OF assms(7,8), where k = k and ar = exact_arith and ch = ch
      and a = a] k s
  have c': "c' < length points" "c' \<noteq> last ch" by simp_all
  show ?case
  proof (cases "n < k")
    case True
    with Suc.IH k s have "c' = n" by simp
    with test_candidate_line_keep [OF assms(1,2,3,4,5,6) k, of a'] s show ?thesis by simp
  next
    case False
    with Suc.prems have "k = n" by simp
    with test_candidate_line_take [OF assms(1,2,3,4,5,6) c', of a'] s show ?thesis by simp
  qed
qed

lemma sweep_line_next:
  assumes "on_line m q points" "distinct (map xcoord points)" "walk_inv points ch"
    and "n < length points" "n \<notin> set ch"
    and "\<forall>u<length points. u \<notin> set ch \<longrightarrow> xcoord (points ! n) \<le> xcoord (points ! u)"
    and "c < length points" "c \<noteq> last ch"
  shows "sweep exact_arith points ch True c = (n, True)"
proof -
  from fold_line_next [OF assms order_refl assms(4), of True]
  have "fst (sweep exact_arith points ch True c) = n" by (simp add: sweep_def)
  moreover from fold_line_flag [OF assms(1,2) walk_inv_end(1) [OF assms(3)] assms(7,8) order_refl, of ch]
  have "snd (sweep exact_arith points ch True c) = True" by (simp add: sweep_def)
  ultimately show ?thesis by (simp add: prod_eq_iff)
qed

lemma sweep_line_flag:
  assumes "on_line m q points" "distinct (map xcoord points)" "walk_inv points ch"
    and "c < length points" "c \<noteq> last ch"
  shows "snd (sweep exact_arith points ch True c) = True"
  using fold_line_flag [OF assms(1,2) walk_inv_end(1) [OF assms(3)] assms(4,5) order_refl, of ch]
  by (simp add: sweep_def)

lemma walk_inv_snoc:
  assumes "distinct (map xcoord points)" "walk_inv points ch"
    and "n < length points" "n \<notin> set ch"
    and "\<forall>u<length points. u \<notin> set ch \<longrightarrow> xcoord (points ! n) \<le> xcoord (points ! u)"
  shows "walk_inv points (ch @ [n])"
proof -
  from assms(2) have hi: "hull_inv points ch" by (simp add: walk_inv_def)
  from assms(2,3,4) have en: "xcoord (points ! last ch) < xcoord (points ! n)"
    by (simp add: walk_inv_def)
  have "\<forall>i\<in>set ch. xcoord (points ! i) < xcoord (points ! n)"
  proof
    fix i assume i: "i \<in> set ch"
    show "xcoord (points ! i) < xcoord (points ! n)"
    proof (cases "i = last ch")
      case True
      with en show ?thesis by simp
    next
      case False
      from walk_inv_visited_less [OF assms(2) i False] en show ?thesis by simp
    qed
  qed
  moreover have "\<forall>u<length points. u \<notin> set (ch @ [n]) \<longrightarrow>
      xcoord (points ! last (ch @ [n])) < xcoord (points ! u)"
  proof (intro allI impI)
    fix u assume u: "u < length points" "u \<notin> set (ch @ [n])"
    with assms(5) have "xcoord (points ! n) \<le> xcoord (points ! u)" by simp
    moreover from u distinct_x_nth [OF assms(1) assms(3) u(1)]
    have "xcoord (points ! n) \<noteq> xcoord (points ! u)" by simp
    ultimately show "xcoord (points ! last (ch @ [n])) < xcoord (points ! u)" by simp
  qed
  ultimately show ?thesis
    using assms(2) hull_inv_snoc [OF hi assms(3,4)]
    by (simp add: walk_inv_def sorted_wrt_append)
qed

lemma next_unvisited:
  assumes "\<exists>u<length points. u \<notin> set ch"
  shows "\<exists>n<length points. n \<notin> set ch \<and>
    (\<forall>u<length points. u \<notin> set ch \<longrightarrow> xcoord (points ! n) \<le> xcoord (points ! u))"
proof -
  let ?U = "{u. u < length points \<and> u \<notin> set ch}"
  let ?X = "(\<lambda>u. xcoord (points ! u)) ` ?U"
  from assms have "finite ?X" "?X \<noteq> {}" by auto
  then have "Min ?X \<in> ?X" and le: "\<forall>v\<in>?X. Min ?X \<le> v" by (simp_all add: Min_in)
  then obtain n where n: "n \<in> ?U" "xcoord (points ! n) = Min ?X" by auto
  with le have "\<forall>u<length points. u \<notin> set ch \<longrightarrow> xcoord (points ! n) \<le> xcoord (points ! u)"
    by auto
  with n(1) show ?thesis by blast
qed

text \<open>
  The loop walks through all points from left to right, and the points returned are those
  of this walk.
\<close>

lemma hull_loop_line:
  "hull_loop ar rand points ch a g = Some r \<Longrightarrow> ar = exact_arith \<Longrightarrow> a \<Longrightarrow>
   on_line m q points \<Longrightarrow> distinct (map xcoord points) \<Longrightarrow> walk_inv points ch \<Longrightarrow>
     \<exists>h g' full. r = Inr (h, True, g') \<and> walk_inv points full
       \<and> (\<forall>u<length points. u \<in> set full)
       \<and> hull_points points h True = map (\<lambda>i. points ! i) full"
proof (induction ar rand points ch a g r
    rule: hull_loop.raw_induct [rotated 1, consumes 1, case_names step])
  case (step f ar rand points ch a g r)
  note ar = step(3) and line = step(5) and dx = step(6) and wi = step(7)
  from step(4) have a: "a = True" by simp
  from wi have hi: "hull_inv points ch" by (simp add: walk_inv_def)
  then have ne: "ch \<noteq> []" and pne: "points \<noteq> []" by (rule hull_inv_nonempty)+
  from step(2) obtain r0 where r0: "find_new_point rand points [last ch] g = Some r0"
    by (cases "find_new_point rand points [last ch] g") auto
  from find_new_point_sound [OF r0] pne obtain c0 g1 where
    c0: "r0 = Inr (c0, g1)" "c0 < length points" "c0 \<noteq> last ch"
    by (cases r0) auto
  show ?case
  proof (cases "\<exists>u<length points. u \<notin> set ch")
    case True
    from next_unvisited [OF this] obtain n where
      n: "n < length points" "n \<notin> set ch"
         "\<forall>u<length points. u \<notin> set ch \<longrightarrow> xcoord (points ! n) \<le> xcoord (points ! u)"
      by blast
    from sweep_line_next [OF line dx wi n c0(2,3)] ar
    have sw: "sweep ar points ch True c0 = (n, True)" by simp
    with step(2) r0 c0(1) ne n(2) a have "f ar rand points (ch @ [n]) True g1 = Some r"
      by (simp add: extend_hull_sweep)
    moreover have "walk_inv points (ch @ [n])"
      using dx wi n by (rule walk_inv_snoc)
    ultimately show ?thesis using step(1) ar line dx by blast
  next
    case False
    then have all: "\<forall>u<length points. u \<in> set ch" by blast
    let ?c = "fst (sweep ar points ch True c0)"
    from sweep_range [OF c0(2,3)] have c: "?c < length points" "?c \<noteq> last ch" by simp_all
    with all have cin: "?c \<in> set ch" by simp
    from sweep_line_flag [OF line dx wi c0(2,3)] ar
    have fl: "snd (sweep ar points ch True c0) = True" by simp
    let ?h = "if hd ch = ?c then ch else ch @ [?c]"
    from step(2) r0 c0(1) ne cin fl a have r: "r = Inr (?h, True, g1)"
      by (simp add: extend_hull_sweep)
    have cw: "closed_walk ch ?h" using hi cin c(2) by (rule closed_walk_final)
    from hi have "distinct ch" by (simp add: hull_inv_def)
    with cin have "(if distinct ?h then ?h else butlast ?h) = ch" by simp
    with hull_points_collinear [OF cw, of points]
    have "hull_points points ?h True = map (\<lambda>i. points ! i) ch" by simp
    with r wi all show ?thesis by blast
  qed
qed

lemma walk_inv_start:
  assumes "points \<noteq> []" "distinct (map xcoord points)"
  shows "walk_inv points [find_leftmost_point PInf points]"
proof -
  let ?l = "find_leftmost_point PInf points"
  from assms(1) have "0 < length points \<and> below (xcoord (points ! 0)) PInf" by simp
  then have "\<exists>j<length points. below (xcoord (points ! j)) PInf" by blast
  from find_leftmost_point_minimum [OF this] have
    l: "?l < length points" and le: "\<forall>j<length points. xcoord (points ! ?l) \<le> xcoord (points ! j)"
    by simp_all
  have "\<forall>u<length points. u \<notin> set [?l] \<longrightarrow> xcoord (points ! last [?l]) < xcoord (points ! u)"
  proof (intro allI impI)
    fix u assume u: "u < length points" "u \<notin> set [?l]"
    with le have "xcoord (points ! ?l) \<le> xcoord (points ! u)" by simp
    moreover from u distinct_x_nth [OF assms(2) l u(1)]
    have "xcoord (points ! ?l) \<noteq> xcoord (points ! u)" by simp
    ultimately show "xcoord (points ! last [?l]) < xcoord (points ! u)" by simp
  qed
  with hull_inv_start [OF assms(1)] show ?thesis by (simp add: walk_inv_def)
qed

text \<open>
  The walk along a line.  In an arithmetic that is free of rounding on the points, the
  loop behaves as in the exact arithmetic: it visits the points by increasing x-coordinate
  and ends after the last one.
\<close>

lemma collinear_walk:
  assumes "3 \<le> length points"
    and "on_line m q points"
    and "distinct (map xcoord points)"
    and "rounding_free ar points"
  shows "(\<forall>out g'. find_convex_hull ar rand points g = Some (Inr (out, g')) \<longrightarrow>
            sorted_wrt (\<lambda>p p'. xcoord p < xcoord p') out \<and> set out = set points
              \<and> length out = length points) \<and>
         (fair rand (length points) \<longrightarrow>
            (\<exists>out g'. find_convex_hull ar rand points g = Some (Inr (out, g'))))"
proof (intro conjI allI impI)
  fix out g'
  assume "find_convex_hull ar rand points g = Some (Inr (out, g'))"
  then have run: "find_convex_hull exact_arith rand points g = Some (Inr (out, g'))"
    by (simp only: find_convex_hull_transfer [OF assms(4)])
  from assms(1) have pne: "points \<noteq> []" by auto
  note eq = run [unfolded find_convex_hull_general [OF assms(1)]]
  from eq obtain r0 where
    r0: "hull_loop exact_arith rand points [find_leftmost_point PInf points] True g = Some r0"
    by (cases "hull_loop exact_arith rand points [find_leftmost_point PInf points] True g") auto
  from hull_loop_line [OF r0 refl TrueI assms(2,3) walk_inv_start [OF pne assms(3)]]
  obtain h g1 full where
    full: "r0 = Inr (h, True, g1)" "walk_inv points full" "\<forall>u<length points. u \<in> set full"
      "hull_points points h True = map (\<lambda>i. points ! i) full"
    by blast
  from eq r0 full(1,4) have out: "out = map (\<lambda>i. points ! i) full" by simp
  from full(2) have d: "distinct full" and lt: "\<forall>i\<in>set full. i < length points"
    and srt: "sorted_wrt (\<lambda>i j. xcoord (points ! i) < xcoord (points ! j)) full"
    by (simp_all add: walk_inv_def hull_inv_def list_all_iff)
  from lt full(3) have sf: "set full = {..<length points}" by auto
  from srt show "sorted_wrt (\<lambda>p p'. xcoord p < xcoord p') out"
    by (simp add: out sorted_wrt_map)
  have "set out = (\<lambda>i. points ! i) ` {..<length points}" by (simp add: out sf)
  also have "\<dots> = set points" by (auto simp add: set_conv_nth)
  finally show "set out = set points" .
  from d sf show "length out = length points"
    by (simp add: out) (metis card_lessThan distinct_card)
next
  assume "fair rand (length points)"
  then have "length points < 3 \<or> fair rand (length points)" ..
  then show "\<exists>out g'. find_convex_hull ar rand points g = Some (Inr (out, g'))"
    by (rule find_convex_hull_returns)
qed

text \<open>
  C2, as stated, fails: for the points \<open>(0, 0)\<close>, \<open>(1, 0)\<close>, \<open>(2, 0)\<close>, \<open>(3, 0)\<close> the output
  is not the two endpoints but all four points (the arithmetic is exact at these points).
\<close>

theorem collinear_hull_keeps_interior_points:
  "find_convex_hull exact_arith replay [pt 0 0, pt 1 0, pt 2 0, pt 3 0] recorded_draws
     = Some (Inr ([pt 0 0, pt 1 0, pt 2 0, pt 3 0], drop 5 recorded_draws)) \<and>
   [pt 0 0, pt 1 0, pt 2 0, pt 3 0] \<noteq> [pt 0 0, pt 3 0] \<and>
   pt 1 0 \<in> set [pt 0 0, pt 1 0, pt 2 0, pt 3 0]"
  by (simp add: eval_defs)

text \<open>
  C2, amended.  For at least three points with pairwise different x-coordinates that all
  lie on one line, and an arithmetic that is free of rounding on them (it stores the
  exact determinant and dot product of every triplet of input points), every output of
  \<open>find_convex_hull\<close> is the sequence of all input points by strictly increasing
  x-coordinate: it starts at the left endpoint, ends at the right endpoint and contains
  every point between them.  With a fair generator there is an output.
\<close>

theorem collinear_hull_all_points_sorted:
  assumes "3 \<le> length points"
    and "on_line m q points"
    and "distinct (map xcoord points)"
    and "rounding_free ar points"
  shows "(\<forall>out g'. find_convex_hull ar rand points g = Some (Inr (out, g')) \<longrightarrow>
            sorted_wrt (\<lambda>p p'. xcoord p < xcoord p') out \<and> set out = set points
              \<and> length out = length points) \<and>
         (fair rand (length points) \<longrightarrow>
            (\<exists>out g'. find_convex_hull ar rand points g = Some (Inr (out, g'))))"
  using assms by (rule collinear_walk)

text \<open>
  The points \<open>(0, 0)\<close>, \<open>(1, 0)\<close>, \<open>(2, 0)\<close>, \<open>(3, 0)\<close> on the line \<open>y = 0\<close>, with the
  arithmetic without rounding and the generator that counts upwards from 10.
\<close>

theorem collinear_hull_all_points_sorted_witness:
  "find_convex_hull exact_arith counter [pt 0 0, pt 1 0, pt 2 0, pt 3 0] 10
     = Some (Inr ([pt 0 0, pt 1 0, pt 2 0, pt 3 0], 14)) \<and>
   sorted_wrt (\<lambda>p p'. xcoord p < xcoord p') [pt 0 0, pt 1 0, pt 2 0, pt 3 0] \<and>
   set [pt 0 0, pt 1 0, pt 2 0, pt 3 0] = set [pt 0 0, pt 1 0, pt 2 0, pt 3 0] \<and>
   length [pt 0 0, pt 1 0, pt 2 0, pt 3 0] = length [pt 0 0, pt 1 0, pt 2 0, pt 3 0] \<and>
   (\<exists>out g'. find_convex_hull exact_arith counter [pt 0 0, pt 1 0, pt 2 0, pt 3 0] 10
      = Some (Inr (out, g')))"
proof -
  have len: "3 \<le> length [pt 0 0, pt 1 0, pt 2 0, pt 3 0]" by simp
  have line: "on_line 0 0 [pt 0 0, pt 1 0, pt 2 0, pt 3 0]"
    by (simp add: on_line_def pt_def)
  have dx: "distinct (map xcoord [pt 0 0, pt 1 0, pt 2 0, pt 3 0])"
    by (simp add: pt_def)
  have rf: "rounding_free exact_arith [pt 0 0, pt 1 0, pt 2 0, pt 3 0]"
    by (simp add: rounding_free_def same_triplets_def)
  have run: "find_convex_hull exact_arith counter [pt 0 0, pt 1 0, pt 2 0, pt 3 0] 10
     = Some (Inr ([pt 0 0, pt 1 0, pt 2 0, pt 3 0], 14))"
    by (simp add: eval_defs counter_def)
  have "fair counter (length [pt 0 0, pt 1 0, pt 2 0, pt 3 0])"
    by (rule fair_counter) simp
  with collinear_hull_all_points_sorted [OF len line dx rf, of counter 10] run
  show ?thesis by blast
qed

text \<open>
  The hypothesis on the arithmetic holds for every arithmetic that is exact on the
  integers up to \<open>2 ^ 53\<close> when the coordinates are integers of magnitude up to \<open>2 ^ 25\<close>;
  so for the four points above the output is all four points in every such arithmetic
  and for every generator.
\<close>

lemma collinear_hull_integer_points:
  assumes "exact_on_integers ar" "integer_points (2 ^ 25) points"
    and "3 \<le> length points" "on_line m q points" "distinct (map xcoord points)"
    and "find_convex_hull ar rand points g = Some (Inr (out, g'))"
  shows "sorted_wrt (\<lambda>p p'. xcoord p < xcoord p') out \<and> set out = set points
           \<and> length out = length points"
proof -
  have rf: "rounding_free ar points"
    using assms(1,2) by (rule integer_points_rounding_free)
  note all = collinear_walk [OF assms(3,4,5) rf, of rand g]
  then have "\<forall>out g'. find_convex_hull ar rand points g = Some (Inr (out, g')) \<longrightarrow>
      sorted_wrt (\<lambda>p p'. xcoord p < xcoord p') out \<and> set out = set points
        \<and> length out = length points" ..
  with assms(6) show ?thesis by blast
qed

section \<open>Reading the input and seeding the generator\<close>

lemma read_points_enough:
  assumes "length xs \<le> length ys"
  shows "k \<le> length xs \<Longrightarrow> read_points xs ys k acc =
     Inr (acc @ map (\<lambda>i. \<lparr>xcoord = xs ! i, ycoord = ys ! i\<rparr>) [length xs - k..<length xs])"
proof (induction k arbitrary: acc)
  case 0
  show ?case by simp
next
  case (Suc k)
  then have i: "length xs - Suc k < length xs" "Suc (length xs - Suc k) = length xs - k" by arith+
  with assms have "length xs - Suc k < length ys" by simp
  moreover have "[length xs - Suc k..<length xs] = (length xs - Suc k) # [length xs - k..<length xs]"
    using i by (simp add: upt_conv_Cons)
  ultimately show ?case using Suc by (simp add: Let_def)
qed

lemma read_points_short:
  assumes "length ys < length xs"
  shows "length xs - k \<le> length ys \<Longrightarrow> read_points xs ys k acc = Inl OutOfRange"
proof (induction k arbitrary: acc)
  case 0
  with assms show ?case by simp
next
  case (Suc k)
  show ?case
  proof (cases "length xs - Suc k < length ys")
    case True
    then have "length xs - k \<le> length ys" by arith
    with Suc.IH True show ?thesis by (simp add: Let_def)
  next
    case False
    then show ?thesis by (simp add: Let_def)
  qed
qed

lemma read_points_all:
  assumes "length xs \<le> length ys"
  shows "read_points xs ys (length xs) [] =
     Inr (map (\<lambda>i. \<lparr>xcoord = xs ! i, ycoord = ys ! i\<rparr>) [0..<length xs])"
  using read_points_enough [OF assms order_refl, of "[]"] by simp

lemma read_points_take:
  assumes "length xs \<le> length ys"
  shows "read_points xs ys (length xs) [] = read_points xs (take (length xs) ys) (length xs) []"
proof -
  from assms have "length xs \<le> length (take (length xs) ys)" by simp
  from read_points_all [OF this] read_points_all [OF assms] show ?thesis by simp
qed

text \<open>
  C9, as stated, fails: the entry point has no validation.  With one x-value and two
  y-values it returns the hull of the single point \<open>(0, 0)\<close>.
\<close>

theorem jarvis_march_accepts_mismatch:
  "length [0::real] \<noteq> length [0::real, 5] \<and>
   jarvis_march exact_arith (\<lambda>seed. recorded_draws) replay [] [0] [0, 5] = Some (Inr ([0], recorded_draws))"
  by (simp add: jarvis_march_def find_convex_hull_def Let_def)

text \<open>
  C9, amended.  The entry point does not compare the lengths.  When \<open>y\<close> is longer than
  \<open>x\<close>, the surplus entries of \<open>y\<close> are ignored: the call behaves as the call with the first
  \<open>x.size()\<close> entries of \<open>y\<close>, and signals nothing.  When \<open>y\<close> is shorter than \<open>x\<close>, \<open>y\<close> is
  read beyond its end.
\<close>

theorem jarvis_march_no_validation:
  "(length xs < length ys \<longrightarrow>
      jarvis_march ar srand rand g xs ys = jarvis_march ar srand rand g xs (take (length xs) ys) \<and>
      (\<forall>e. jarvis_march ar srand rand g xs ys \<noteq> Some (Inl e))) \<and>
   (length ys < length xs \<longrightarrow> jarvis_march ar srand rand g xs ys = Some (Inl OutOfRange))"
proof (intro conjI impI allI)
  assume "length xs < length ys"
  then have le: "length xs \<le> length ys" by simp
  from read_points_take [OF le]
  show "jarvis_march ar srand rand g xs ys = jarvis_march ar srand rand g xs (take (length xs) ys)"
    by (simp add: jarvis_march_def)
  fix e
  show "jarvis_march ar srand rand g xs ys \<noteq> Some (Inl e)"
  proof
    assume err: "jarvis_march ar srand rand g xs ys = Some (Inl e)"
    let ?points = "map (\<lambda>i. \<lparr>xcoord = xs ! i, ycoord = ys ! i\<rparr>) [0..<length xs]"
    from err read_points_all [OF le] have "find_convex_hull ar rand ?points (srand 10) = Some (Inl e)"
      by (auto simp add: jarvis_march_def split: option.splits sum.splits)
    from find_convex_hull_sound [OF this] show False by simp
  qed
next
  assume "length ys < length xs"
  from read_points_short [OF this, of "length xs" "[]"]
  show "jarvis_march ar srand rand g xs ys = Some (Inl OutOfRange)"
    by (simp add: jarvis_march_def)
qed

theorem jarvis_march_no_validation_witness:
  "jarvis_march exact_arith (\<lambda>seed. recorded_draws) replay [] [0] [0, 5]
     = jarvis_march exact_arith (\<lambda>seed. recorded_draws) replay [] [0] (take (length [0::real]) [0, 5]) \<and>
   jarvis_march exact_arith (\<lambda>seed. recorded_draws) replay [] [0] [0, 5] \<noteq> Some (Inl OutOfRange) \<and>
   jarvis_march exact_arith (\<lambda>seed. recorded_draws) replay [] [0, 1] [5] = Some (Inl OutOfRange)"
proof -
  have l1: "length [0::real] < length [0::real, 5]" by simp
  have l2: "length [5::real] < length [0::real, 1]" by simp
  from jarvis_march_no_validation [where xs = "[0]" and ys = "[0, 5]" and ar = exact_arith
      and srand = "\<lambda>seed. recorded_draws" and rand = replay and g = "[]"] l1
    jarvis_march_no_validation [where xs = "[0, 1]" and ys = "[5]" and ar = exact_arith
      and srand = "\<lambda>seed. recorded_draws" and rand = replay and g = "[]"] l2
  show ?thesis by blast
qed

text \<open>
  C10.  For x- and y-values of equal length, the result of \<open>jarvis_march\<close>, the output
  sequence and the state in which it leaves the generator, does not depend on the state
  \<open>g1\<close> or \<open>g2\<close> of the generator before the call: the call seeds it with 10.  With fewer
  than three points, or a fair generator, the call returns an output sequence.
\<close>

theorem jarvis_march_deterministic:
  assumes "length xs = length ys"
  shows "jarvis_march ar srand rand g1 xs ys = jarvis_march ar srand rand g2 xs ys \<and>
    (length xs < 3 \<or> fair rand (length xs) \<longrightarrow>
       (\<exists>out g'. jarvis_march ar srand rand g1 xs ys = Some (Inr (out, g'))))"
proof (intro conjI impI)
  show "jarvis_march ar srand rand g1 xs ys = jarvis_march ar srand rand g2 xs ys"
    by (simp add: jarvis_march_def)
  assume f: "length xs < 3 \<or> fair rand (length xs)"
  let ?points = "map (\<lambda>i. \<lparr>xcoord = xs ! i, ycoord = ys ! i\<rparr>) [0..<length xs]"
  from assms have "length xs \<le> length ys" by simp
  then have rp: "read_points xs ys (length xs) [] = Inr ?points"
    by (rule read_points_all)
  from f have "length ?points < 3 \<or> fair rand (length ?points)" by simp
  from find_convex_hull_returns [OF this] obtain out g' where
    "find_convex_hull ar rand ?points (srand 10) = Some (Inr (out, g'))" by blast
  with rp show "\<exists>out g'. jarvis_march ar srand rand g1 xs ys = Some (Inr (out, g'))"
    by (simp add: jarvis_march_def)
qed

text \<open>
  The corners of a square and its centre, with the generator that counts upwards from its
  seed, called in the generator states 0 and 7.
\<close>

theorem jarvis_march_deterministic_witness:
  "jarvis_march exact_arith (\<lambda>seed. seed) counter 0 [0, 0, 2, 2, 1] [0, 2, 2, 0, 1]
     = jarvis_march exact_arith (\<lambda>seed. seed) counter 7 [0, 0, 2, 2, 1] [0, 2, 2, 0, 1] \<and>
   (\<exists>out g'. jarvis_march exact_arith (\<lambda>seed. seed) counter 0 [0, 0, 2, 2, 1] [0, 2, 2, 0, 1]
      = Some (Inr (out, g')))"
proof -
  have len: "length [0, 0, 2, 2, 1 :: real] = length [0, 2, 2, 0, 1 :: real]" by simp
  have "fair counter (length [0, 0, 2, 2, 1 :: real])"
    by (rule fair_counter) simp
  with jarvis_march_deterministic [OF len, where ar = exact_arith and srand = "\<lambda>seed. seed"
      and rand = counter and ?g1.0 = 0 and ?g2.0 = 7]
  show ?thesis by blast
qed

end
